theory Spec2Isabelle
  imports Complex_Main "HOL-Library.AList" "HOL-Library.Multiset"
begin

section \<open>Basic income and basic job models: a shallow embedding\<close>

text \<open>
  The theory embeds the simulation engine of \<^verbatim>\<open>basic-income-basic-job.js\<close>: the three
  random variate generators, the two policy models, the loop of \<^verbatim>\<open>run\<close> and the
  reducer that averages the trials.

  Modelling decisions, fixed once for the whole theory:
  \<^item> A JavaScript number is a \<^typ>\<open>real\<close> and arithmetic is exact. The one place of the engine
    where a NaN can arise (\<^verbatim>\<open>Math.sqrt\<close> of a negative number in \<^verbatim>\<open>binomRand\<close>) is a branch of
    its own. The computations whose claims turn on rounding, \<^verbatim>\<open>uniformRand\<close>,
    \<^verbatim>\<open>amountsAvgReducer\<close> and the total of a trial, are embedded a second time in double
    precision, with every arithmetic result rounded to the nearest double.
  \<^item> \<^verbatim>\<open>Math.random()\<close> reads an entropy tape: the sequence of the numbers that
    successive calls return. The state threaded through the code is the number of calls
    made so far.
  \<^item> The rejection loop of \<^verbatim>\<open>gaussRand\<close> may run forever on some tapes; every function
    that runs it returns an \<^typ>\<open>'a option\<close>, and \<^term>\<open>None\<close> is "does not return".
  \<^item> A JavaScript object is the list of its own properties in insertion order; an array
    is a list of slots, a slot being \<^term>\<open>None\<close> for a hole.
\<close>

subsection \<open>Constants\<close>

definition numAdults :: real where
  "numAdults = 227 * 10 ^ 6"

definition basicIncome :: real where
  "basicIncome = 7.25 * 40 * 50"

definition laborForce :: real where
  "laborForce = 154 * 10 ^ 6"

definition disabledAdults :: real where
  "disabledAdults = 21 * 10 ^ 6"

definition currentWealthTransfers :: real where
  "currentWealthTransfers = 3369 * 10 ^ 9"

subsection \<open>Utility functions: the random variate generators\<close>

type_synonym entropy = "nat \<Rightarrow> real"

text \<open>\<^verbatim>\<open>Math.random()\<close>: the next number of the tape, and the advanced position.\<close>

definition Math_random :: "entropy \<Rightarrow> nat \<Rightarrow> real \<times> nat" where
  "Math_random rnd i = (rnd i, Suc i)"

text \<open>
  \<^verbatim>\<open>function uniformRand(min, max) { return Math.random() * (max - min) + min; }\<close>
\<close>

definition uniformRand :: "real \<Rightarrow> real \<Rightarrow> entropy \<Rightarrow> nat \<Rightarrow> real \<times> nat" where
  "uniformRand mn mx rnd i =
     (let (u, i1) = Math_random rnd i in (u * (mx - mn) + mn, i1))"

text \<open>
  The \<^verbatim>\<open>do { ... } while (radius >= 1 || radius === 0)\<close> loop of \<^verbatim>\<open>gaussRand\<close>: the body
  runs, then the test; the loop returns the \<^verbatim>\<open>z1\<close> and \<^verbatim>\<open>radius\<close> it exits with.
\<close>

partial_function (option) gaussLoop :: "entropy \<Rightarrow> nat \<Rightarrow> (real \<times> real \<times> nat) option" where
  "gaussLoop rnd i =
     (let (u1, i1) = Math_random rnd i;
          z1 = 2 * u1 - 1;
          (u2, i2) = Math_random rnd i1;
          z2 = 2 * u2 - 1;
          radius = z1 * z1 + z2 * z2
      in if radius \<ge> 1 \<or> radius = 0 then gaussLoop rnd i2 else Some (z1, radius, i2))"

text \<open>
  \<^verbatim>\<open>gaussRand(mu, sigma)\<close>: an argument that is \<^verbatim>\<open>undefined\<close> (here \<^term>\<open>None\<close>) takes its
  default, 0 for \<^verbatim>\<open>mu\<close> and 1 for \<^verbatim>\<open>sigma\<close>.
\<close>

definition gaussRand :: "real option \<Rightarrow> real option \<Rightarrow> entropy \<Rightarrow> nat \<Rightarrow> (real \<times> nat) option" where
  "gaussRand mu sigma rnd i =
     (let mu = (case mu of Some m \<Rightarrow> m | None \<Rightarrow> 0);
          sigma = (case sigma of Some sg \<Rightarrow> sg | None \<Rightarrow> 1)
      in case gaussLoop rnd i of
           None \<Rightarrow> None
         | Some (z1, radius, i') \<Rightarrow>
             (let marsaglia = sqrt (- 2 * ln radius / radius)
              in Some ((z1 * marsaglia) * sigma + mu, i')))"

text \<open>
  \<^verbatim>\<open>binomRand(N, p)\<close>. \<^verbatim>\<open>Math.round\<close> rounds to the nearest integer, a half upwards, which
  is \<^term>\<open>round\<close>. When \<^verbatim>\<open>N * p * (1 - p)\<close> is negative, \<^verbatim>\<open>Math.sqrt\<close> returns NaN, which
  \<^verbatim>\<open>gaussRand\<close> (after its loop) and \<^verbatim>\<open>Math.round\<close> pass on; \<^verbatim>\<open>NaN > 0\<close> is false, so the
  function returns 0.
\<close>

definition binomRand :: "real \<Rightarrow> real \<Rightarrow> entropy \<Rightarrow> nat \<Rightarrow> (real \<times> nat) option" where
  "binomRand N p rnd i =
     (if N * p * (1 - p) < 0 then
        (case gaussLoop rnd i of
           None \<Rightarrow> None
         | Some (z1, radius, i') \<Rightarrow> Some (0, i'))
      else
        (case gaussRand (Some (N * p)) (Some (sqrt (N * p * (1 - p)))) rnd i of
           None \<Rightarrow> None
         | Some (g, i') \<Rightarrow>
             (let count = real_of_int (round g)
              in Some (if count > 0 then count else 0, i'))))"

subsection \<open>Objects and arrays\<close>

text \<open>
  The object \<^verbatim>\<open>amounts\<close> of a model, and the accumulator \<^verbatim>\<open>avg\<close> of the reducer: the own
  properties in insertion order, which is the order of \<^verbatim>\<open>Object.keys\<close>. The assignment
  \<^verbatim>\<open>amounts.key = v\<close> is \<^term>\<open>AList.update key v amounts\<close>: it replaces the value of a key
  the object has, and appends the key otherwise. Property names are ordinary names: none
  shadows a member of \<^verbatim>\<open>Object.prototype\<close>.
\<close>

type_synonym amounts = "(string \<times> real) list"

definition hasOwnProperty :: "amounts \<Rightarrow> string \<Rightarrow> bool" where
  "hasOwnProperty avg key = (map_of avg key \<noteq> None)"

text \<open>
  An array is the list of its slots up to \<^verbatim>\<open>length\<close>; \<^term>\<open>None\<close> is a hole. The assignment
  \<^verbatim>\<open>xs[i] = v\<close> overwrites slot \<open>i\<close> when \<open>i\<close> is below the length, and otherwise extends the
  array up to \<open>i\<close>, leaving holes in between. \<^verbatim>\<open>xs.reduce(f, init)\<close> calls \<open>f\<close> on the slots
  that are not holes, from left to right.
\<close>

type_synonym 'a array = "'a option list"

definition array_set :: "'a array \<Rightarrow> nat \<Rightarrow> 'a \<Rightarrow> 'a array" where
  "array_set xs i v =
     (if i < length xs then xs[i := Some v]
      else xs @ replicate (i - length xs) None @ [Some v])"

definition array_reduce :: "('b \<Rightarrow> 'a \<Rightarrow> 'b) \<Rightarrow> 'b \<Rightarrow> 'a array \<Rightarrow> 'b" where
  "array_reduce f init xs =
     fold (\<lambda>slot acc. case slot of None \<Rightarrow> acc | Some x \<Rightarrow> f acc x) xs init"

subsection \<open>Basic income model\<close>

definition basicIncomeCostBenefit :: "entropy \<Rightarrow> nat \<Rightarrow> (amounts \<times> nat) option" where
  "basicIncomeCostBenefit rnd i =
     (let amounts = [];
          amounts = AList.update ''directCosts'' (numAdults * basicIncome / 2) amounts
      in case gaussRand (Some 250) (Some 75) rnd i of
           None \<Rightarrow> None
         | Some (administrativeCostPerPerson, i1) \<Rightarrow>
             (let amounts = AList.update ''administrativeCosts''
                              (numAdults * administrativeCostPerPerson) amounts;
                  (nonWorkerMultiplier, i2) = uniformRand (- 0.10) 0.15 rnd i1;
                  nonWorkers = (numAdults - laborForce - disabledAdults) * (1 + nonWorkerMultiplier);
                  avgHourlyWage = 25;
                  (productivityMultiplier, i3) = uniformRand (- 0.1) 0.2 rnd i2;
                  amounts = AList.update ''productivity''
                              (- laborForce * (40 * 52 * avgHourlyWage) * productivityMultiplier)
                              amounts
              in case binomRand nonWorkers (1 / 10 ^ 7) rnd i3 of
                   None \<Rightarrow> None
                 | Some (geniuses, i4) \<Rightarrow>
                     Some (AList.update ''jkRowling'' (- geniuses * 10 ^ 9) amounts, i4)))"

subsection \<open>Basic job model\<close>

definition basicJobCostBenefit :: "entropy \<Rightarrow> nat \<Rightarrow> (amounts \<times> nat) option" where
  "basicJobCostBenefit rnd i =
     (let amounts = [];
          (nonWorkerMultiplier, i1) = uniformRand (- 0.1) 0.15 rnd i;
          numBasicWorkers = (numAdults - disabledAdults - laborForce) * (1 + nonWorkerMultiplier);
          amounts = AList.update ''directCosts'' (numBasicWorkers * basicIncome) amounts
      in case gaussRand (Some 500) (Some 150) rnd i1 of
           None \<Rightarrow> None
         | Some (administrativeCostPerDisabledPerson, i2) \<Rightarrow>
             (let amounts = AList.update ''disabled''
                              (disabledAdults * (basicIncome + administrativeCostPerDisabledPerson))
                              amounts
              in case gaussRand (Some 5000) (Some 1500) rnd i2 of
                   None \<Rightarrow> None
                 | Some (administrativeCostPerWorker, i3) \<Rightarrow>
                     (let amounts = AList.update ''administrativeCosts''
                                      (numBasicWorkers * administrativeCostPerWorker) amounts;
                          (basicJobHourlyProductivity, i4) = uniformRand (- 7.25) 7.25 rnd i3;
                          amounts = AList.update ''productivity''
                                      (- numBasicWorkers * (40 * 50 * basicJobHourlyProductivity))
                                      amounts
                      in Some (amounts, i4))))"

subsection \<open>Run models and aggregate results\<close>

text \<open>The global variables of the script; the two averages are \<^verbatim>\<open>undefined\<close> before the first run.\<close>

record globals =
  biAmounts :: "amounts array"
  biTotals :: "real array"
  bjAmounts :: "amounts array"
  bjTotals :: "real array"
  biAmountsAvg :: "amounts option"
  bjAmountsAvg :: "amounts option"

definition init_globals :: globals where
  "init_globals =
     \<lparr>biAmounts = [], biTotals = [], bjAmounts = [], bjTotals = [],
      biAmountsAvg = None, bjAmountsAvg = None\<rparr>"

text \<open>
  The total of one trial, with \<^verbatim>\<open>amounts\<close> for the object just stored in \<^verbatim>\<open>biAmounts[i]\<close> (or
  \<^verbatim>\<open>bjAmounts[i]\<close>):
  \<^verbatim>\<open>Object.keys(amounts).reduce(function (total, key) { return amounts[key] / 1e12 + total; }, 0)\<close>.
  The keys are the object's own, so each lookup returns the value stored with the key, and
  the reduction is a fold over the properties in insertion order.
\<close>

definition trialTotal :: "amounts \<Rightarrow> real" where
  "trialTotal amounts = fold (\<lambda>(key, v) total. v / 10 ^ 12 + total) amounts 0"

text \<open>
  The \<^verbatim>\<open>for (var i = 0; i < N; i++)\<close> loop of \<^verbatim>\<open>run\<close>, from the value \<open>i\<close> of its counter on.
\<close>

function run_loop :: "int \<Rightarrow> nat \<Rightarrow> globals \<Rightarrow> entropy \<Rightarrow> nat \<Rightarrow> (globals \<times> nat) option" where
  "run_loop N i g rnd p =
     (if int i < N then
        (case basicIncomeCostBenefit rnd p of
           None \<Rightarrow> None
         | Some (bi, p1) \<Rightarrow>
             (case basicJobCostBenefit rnd p1 of
                None \<Rightarrow> None
              | Some (bj, p2) \<Rightarrow>
                  run_loop N (Suc i)
                    (g\<lparr>biAmounts := array_set (biAmounts g) i bi,
                       biTotals := array_set (biTotals g) i (trialTotal bi),
                       bjAmounts := array_set (bjAmounts g) i bj,
                       bjTotals := array_set (bjTotals g) i (trialTotal bj)\<rparr>)
                    rnd p2))
      else Some (g, p))"
  by pat_completeness auto
termination
  by (relation "measure (\<lambda>(N, i, g, rnd, p). nat (N - int i))") auto

declare run_loop.simps [simp del]

text \<open>
  \<^verbatim>\<open>amountsAvgReducer(avg, amounts)\<close>, a closure over the \<^verbatim>\<open>N\<close> of \<^verbatim>\<open>run\<close>: for each key of
  \<^verbatim>\<open>amounts\<close>, \<^verbatim>\<open>avg[key] += amounts[key] / N\<close> when \<^verbatim>\<open>avg\<close> has the key, and
  \<^verbatim>\<open>avg[key] = amounts[key] / N\<close> otherwise. \<^term>\<open>AList.map_entry\<close> changes the value of a
  key in place.
\<close>

definition amountsAvgReducer :: "real \<Rightarrow> amounts \<Rightarrow> amounts \<Rightarrow> amounts" where
  "amountsAvgReducer N avg amounts =
     fold (\<lambda>(key, v) avg.
             if hasOwnProperty avg key then AList.map_entry key (\<lambda>a. a + v / N) avg
             else AList.update key (v / N) avg)
          amounts avg"

text \<open>
  \<^verbatim>\<open>xs.reduce(amountsAvgReducer, {})\<close>, which \<^verbatim>\<open>run\<close> evaluates on \<^verbatim>\<open>biAmounts\<close> and on
  \<^verbatim>\<open>bjAmounts\<close>.
\<close>

definition average :: "real \<Rightarrow> amounts array \<Rightarrow> amounts" where
  "average N xs = array_reduce (amountsAvgReducer N) [] xs"

text \<open>
  The body of \<^verbatim>\<open>run\<close> as a function of its local \<^verbatim>\<open>N\<close>; \<^verbatim>\<open>run\<close> itself takes no argument and
  sets \<^verbatim>\<open>var N = 1000\<close>. The call of \<^verbatim>\<open>render\<close>, which draws the charts and changes none of
  the globals, is left out.
\<close>

definition runN :: "int \<Rightarrow> globals \<Rightarrow> entropy \<Rightarrow> nat \<Rightarrow> (globals \<times> nat) option" where
  "runN N g rnd p =
     (case run_loop N 0 g rnd p of
        None \<Rightarrow> None
      | Some (g1, p1) \<Rightarrow>
          Some (g1\<lparr>biAmountsAvg := Some (average (real_of_int N) (biAmounts g1)),
                   bjAmountsAvg := Some (average (real_of_int N) (bjAmounts g1))\<rparr>,
                p1))"

definition run :: "globals \<Rightarrow> entropy \<Rightarrow> nat \<Rightarrow> (globals \<times> nat) option" where
  "run g rnd p = runN 1000 g rnd p"



subsection \<open>The same arithmetic in double precision\<close>

text \<open>
  The script computes with IEEE 754 doubles: each \<^verbatim>\<open>+\<close>, \<^verbatim>\<open>-\<close>, \<^verbatim>\<open>*\<close> and \<^verbatim>\<open>/\<close> returns the
  double nearest to the exact result, a tie going to the double with an even significand.
  \<^term>\<open>to_double x\<close> is that double for \<open>x\<close> in the normal range: \<open>x\<close> is scaled to a
  significand \<open>q\<close> with \<open>2 ^ 52 \<le> \<bar>q\<bar> < 2 ^ 53\<close>, which is rounded to an integer. Overflow
  and subnormal numbers are not modelled.
\<close>

definition round_even :: "real \<Rightarrow> int" where
  "round_even q =
     (let f = \<lfloor>q\<rfloor>
      in if q - of_int f < 1 / 2 then f
         else if q - of_int f > 1 / 2 then f + 1
         else if even f then f else f + 1)"

definition to_double :: "real \<Rightarrow> real" where
  "to_double x =
     (if x = 0 then 0
      else (let e = \<lfloor>log 2 \<bar>x\<bar>\<rfloor> - 52
            in of_int (round_even (x / 2 powr of_int e)) * 2 powr of_int e))"

text \<open>
  \<^verbatim>\<open>uniformRand\<close> and \<^verbatim>\<open>amountsAvgReducer\<close> once more, on doubles: the same expressions, each
  arithmetic result rounded.
\<close>

definition uniformRand64 :: "real \<Rightarrow> real \<Rightarrow> entropy \<Rightarrow> nat \<Rightarrow> real \<times> nat" where
  "uniformRand64 mn mx rnd i =
     (let (u, i1) = Math_random rnd i
      in (to_double (to_double (u * to_double (mx - mn)) + mn), i1))"

definition amountsAvgReducer64 :: "real \<Rightarrow> amounts \<Rightarrow> amounts \<Rightarrow> amounts" where
  "amountsAvgReducer64 N avg amounts =
     fold (\<lambda>(key, v) avg.
             if hasOwnProperty avg key
             then AList.map_entry key (\<lambda>a. to_double (a + to_double (v / N))) avg
             else AList.update key (to_double (v / N)) avg)
          amounts avg"

definition average64 :: "real \<Rightarrow> amounts array \<Rightarrow> amounts" where
  "average64 N xs = array_reduce (amountsAvgReducer64 N) [] xs"

text \<open>
  The total of one trial once more, on doubles: the quotient \<^verbatim>\<open>amounts[key] / 1e12\<close> is
  rounded, and so is its sum with \<^verbatim>\<open>total\<close>.
\<close>

definition trialTotal64 :: "amounts \<Rightarrow> real" where
  "trialTotal64 amounts =
     fold (\<lambda>(key, v) total. to_double (to_double (v / 10 ^ 12) + total)) amounts 0"

section \<open>Vocabulary of the claims\<close>

subsection \<open>When the rejection loop exits\<close>

text \<open>
  \<^term>\<open>radius_at rnd i\<close> is the \<^verbatim>\<open>radius\<close> that the loop computes from the draws at positions
  \<open>i\<close> and \<open>i + 1\<close>, and \<^term>\<open>accepts rnd i\<close> says that this pair fails the test of the
  \<^verbatim>\<open>while\<close>, so that the loop exits with it. \<^term>\<open>exits rnd i\<close>: a loop started at position
  \<open>i\<close> meets such a pair. A tape is \<^term>\<open>fair\<close> when this holds from every position; for
  independent uniform draws, the tapes that are not fair have probability 0.
\<close>

definition radius_at :: "entropy \<Rightarrow> nat \<Rightarrow> real" where
  "radius_at rnd i =
     (2 * rnd i - 1) * (2 * rnd i - 1) + (2 * rnd (Suc i) - 1) * (2 * rnd (Suc i) - 1)"

definition accepts :: "entropy \<Rightarrow> nat \<Rightarrow> bool" where
  "accepts rnd i = (\<not> (radius_at rnd i \<ge> 1 \<or> radius_at rnd i = 0))"

definition exits :: "entropy \<Rightarrow> nat \<Rightarrow> bool" where
  "exits rnd i = (\<exists>k. accepts rnd (i + 2 * k))"

definition fair :: "entropy \<Rightarrow> bool" where
  "fair rnd = (\<forall>i. exits rnd i)"

text \<open>
  Concrete tapes: \<^term>\<open>tape xs\<close> is the numbers of \<open>xs\<close>, then \<open>3 / 4\<close> for ever. A pair of
  draws \<open>3 / 4\<close> gives \<open>z1 = z2 = 1 / 2\<close> and \<open>radius = 1 / 2\<close>, which the loop accepts. On
  \<^term>\<open>sample\<close>, both Gaussian draws of the basic income model have \<open>z1 = 0\<close>.
\<close>

definition tape :: "real list \<Rightarrow> entropy" where
  "tape xs n = (if n < length xs then xs ! n else 3 / 4)"

definition sample :: entropy where
  "sample = tape [1 / 2, 3 / 4, 2 / 5, 1 / 2, 1 / 2, 3 / 4]"

subsection \<open>Trials, averages and reachable states\<close>

definition biKeys :: "string list" where
  "biKeys = [''directCosts'', ''administrativeCosts'', ''productivity'', ''jkRowling'']"

definition bjKeys :: "string list" where
  "bjKeys = [''directCosts'', ''disabled'', ''administrativeCosts'', ''productivity'']"

text \<open>
  \<^term>\<open>present xs\<close> are the elements of an array, holes left out. \<^term>\<open>add_entry N\<close> is one
  step of the reducer, seen on the mapping that the accumulator represents.
  \<^term>\<open>spliced i vs xs\<close> is the array \<open>xs\<close> with the slots from \<open>i\<close> on overwritten by
  \<open>vs\<close>.
\<close>

definition present :: "'a array \<Rightarrow> 'a list" where
  "present xs = concat (map (\<lambda>slot. case slot of None \<Rightarrow> [] | Some x \<Rightarrow> [x]) xs)"

definition add_entry :: "real \<Rightarrow> string \<times> real \<Rightarrow> (string \<rightharpoonup> real) \<Rightarrow> (string \<rightharpoonup> real)" where
  "add_entry N = (\<lambda>(key, v) m. m(key \<mapsto> (case m key of None \<Rightarrow> v / N | Some a \<Rightarrow> a + v / N)))"

definition spliced :: "nat \<Rightarrow> 'a list \<Rightarrow> 'a array \<Rightarrow> 'a array" where
  "spliced i vs xs = take i xs @ map Some vs @ drop (i + length vs) xs"

text \<open>
  The sum of the values of a mapping, and the arithmetic mean of a list of numbers. Both
  are exact: they are the claims' own arithmetic, not the script's.
\<close>

definition sum_values :: "amounts \<Rightarrow> real" where
  "sum_values avg = sum_list (map snd avg)"

definition mean :: "real list \<Rightarrow> real" where
  "mean ts = sum_list ts / real (length ts)"

text \<open>
  The script calls \<^verbatim>\<open>run\<close> when the page loads and again at each click on the page, so the
  states of the globals that a run can start from are the initial one and those that a
  run has left. \<^term>\<open>fits n g\<close>: no array of \<open>g\<close> is longer than \<open>n\<close>.
\<close>

definition fits :: "nat \<Rightarrow> globals \<Rightarrow> bool" where
  "fits n g =
     (length (biAmounts g) \<le> n \<and> length (biTotals g) \<le> n \<and>
      length (bjAmounts g) \<le> n \<and> length (bjTotals g) \<le> n)"

inductive reachable :: "globals \<Rightarrow> bool" where
  initial: "reachable init_globals"
| after_run: "reachable g \<Longrightarrow> run g rnd p = Some (g', p') \<Longrightarrow> reachable g'"

subsection \<open>Rounding errors\<close>

text \<open>
  The unit roundoff of double precision: rounding to the nearest double changes a number
  by at most this fraction of its magnitude. \<^term>\<open>abs_values a\<close> is the mapping \<open>a\<close> with
  every value replaced by its absolute value. \<^term>\<open>add_entry64 N\<close> is one step of the
  reducer on doubles, seen on the mapping that the accumulator represents.
  \<^term>\<open>close c mh m M\<close> relates a mapping \<open>mh\<close> computed in doubles to the mapping \<open>m\<close>
  computed exactly and to the mapping \<open>M\<close> computed exactly from the absolute values: the
  three have the same keys, and at each key the value of \<open>mh\<close> differs from that of \<open>m\<close>
  by at most \<open>c - 1\<close> times the value of \<open>M\<close>, which bounds the value of \<open>m\<close>.
\<close>

definition unit_roundoff :: real where
  "unit_roundoff = 1 / 2 ^ 53"

text \<open>
  The amounts on which the aggregation of a run stays in the normal range of double
  precision, where \<^term>\<open>to_double\<close> is the rounding of the script: an amount in this range
  divided by \<^verbatim>\<open>N\<close> or by \<^verbatim>\<open>1e12\<close> does not underflow, and 1000 of them do not add up to an
  overflow. The amounts of the two models are zero or far inside the range.
\<close>

definition in_range :: "real \<Rightarrow> bool" where
  "in_range v = (v = 0 \<or> (1 / 10 ^ 290 \<le> \<bar>v\<bar> \<and> \<bar>v\<bar> \<le> 10 ^ 300))"

definition abs_values :: "amounts \<Rightarrow> amounts" where
  "abs_values a = map (\<lambda>(key, v). (key, \<bar>v\<bar>)) a"

definition add_entry64 :: "real \<Rightarrow> string \<times> real \<Rightarrow> (string \<rightharpoonup> real) \<Rightarrow> (string \<rightharpoonup> real)" where
  "add_entry64 N =
     (\<lambda>(key, v) m. m(key \<mapsto> (case m key of None \<Rightarrow> to_double (v / N)
                                   | Some a \<Rightarrow> to_double (a + to_double (v / N)))))"

definition close :: "real \<Rightarrow> (string \<rightharpoonup> real) \<Rightarrow> (string \<rightharpoonup> real) \<Rightarrow> (string \<rightharpoonup> real) \<Rightarrow> bool" where
  "close c mh m M =
     (dom mh = dom m \<and> dom M = dom m \<and>
      (\<forall>k xh x a. mh k = Some xh \<longrightarrow> m k = Some x \<longrightarrow> M k = Some a \<longrightarrow>
         \<bar>xh - x\<bar> \<le> (c - 1) * a \<and> \<bar>x\<bar> \<le> a))"

section \<open>Lemmas\<close>

subsection \<open>The rejection loop\<close>

lemma gaussLoop_unfold:
  "gaussLoop rnd i =
     (if radius_at rnd i \<ge> 1 \<or> radius_at rnd i = 0 then gaussLoop rnd (Suc (Suc i))
      else Some (2 * rnd i - 1, radius_at rnd i, Suc (Suc i)))"
  by (subst gaussLoop.simps) (simp add: Math_random_def Let_def radius_at_def)

lemma gaussLoop_accepts:
  "accepts rnd i \<Longrightarrow>
   gaussLoop rnd i = Some (2 * rnd i - 1, radius_at rnd i, Suc (Suc i))"
  by (subst gaussLoop_unfold) (simp add: accepts_def)

lemma gaussLoop_rejects:
  "\<not> accepts rnd i \<Longrightarrow> gaussLoop rnd i = gaussLoop rnd (Suc (Suc i))"
  by (subst gaussLoop_unfold) (simp add: accepts_def)

lemma gaussLoop_exits_aux:
  "accepts rnd (i + 2 * k) \<Longrightarrow> \<exists>z1 radius j. gaussLoop rnd i = Some (z1, radius, j)"
proof (induction k arbitrary: i)
  case 0
  then show ?case using gaussLoop_accepts [of rnd i] by simp
next
  case (Suc k)
  show ?case
  proof (cases "accepts rnd i")
    case True
    then show ?thesis using gaussLoop_accepts [of rnd i] by simp
  next
    case False
    from Suc.prems have "accepts rnd (Suc (Suc i) + 2 * k)" by simp
    from Suc.IH [OF this] show ?thesis using gaussLoop_rejects [OF False] by simp
  qed
qed

lemma gaussLoop_exits:
  "exits rnd i \<Longrightarrow> \<exists>z1 radius j. gaussLoop rnd i = Some (z1, radius, j)"
  unfolding exits_def using gaussLoop_exits_aux by blast

lemma radius_at_nonneg: "0 \<le> radius_at rnd i"
  by (simp add: radius_at_def)

lemma gaussLoop_radius:
  "gaussLoop rnd i = Some r \<Longrightarrow> 0 < fst (snd r) \<and> fst (snd r) < 1"
proof (induction rnd i r rule: gaussLoop.raw_induct [rotated 1, consumes 1])
  case (1 loop rnd i r)
  have step: "(if radius_at rnd i \<ge> 1 \<or> radius_at rnd i = 0 then loop rnd (Suc (Suc i))
      else Some (2 * rnd i - 1, radius_at rnd i, Suc (Suc i))) = Some r"
    using "1.hyps" unfolding Math_random_def Let_def radius_at_def prod.case .
  show ?case
  proof (cases "radius_at rnd i \<ge> 1 \<or> radius_at rnd i = 0")
    case True
    with step have "loop rnd (Suc (Suc i)) = Some r" by simp
    then show ?thesis by (rule "1.IH")
  next
    case False
    with step have r: "r = (2 * rnd i - 1, radius_at rnd i, Suc (Suc i))" by auto
    from False radius_at_nonneg [of rnd i] have "0 < radius_at rnd i \<and> radius_at rnd i < 1"
      by linarith
    with r show ?thesis by simp
  qed
qed

text \<open>
  The loop returns the first accepted pair, and only looks at the draws before the
  position it returns.
\<close>

lemma gaussLoop_result:
  "gaussLoop rnd i = Some r \<Longrightarrow>
   \<exists>k. (\<forall>m<k. \<not> accepts rnd (i + 2 * m)) \<and> accepts rnd (i + 2 * k) \<and>
       r = (2 * rnd (i + 2 * k) - 1, radius_at rnd (i + 2 * k), Suc (Suc (i + 2 * k)))"
proof (induction rnd i r rule: gaussLoop.raw_induct [rotated 1, consumes 1])
  case (1 loop rnd i r)
  have step: "(if radius_at rnd i \<ge> 1 \<or> radius_at rnd i = 0 then loop rnd (Suc (Suc i))
      else Some (2 * rnd i - 1, radius_at rnd i, Suc (Suc i))) = Some r"
    using "1.hyps" unfolding Math_random_def Let_def radius_at_def prod.case .
  show ?case
  proof (cases "accepts rnd i")
    case True
    with step have "r = (2 * rnd i - 1, radius_at rnd i, Suc (Suc i))"
      by (auto simp: accepts_def)
    with True have "(\<forall>m<0::nat. \<not> accepts rnd (i + 2 * m)) \<and> accepts rnd (i + 2 * 0) \<and>
       r = (2 * rnd (i + 2 * 0) - 1, radius_at rnd (i + 2 * 0), Suc (Suc (i + 2 * 0)))"
      by simp
    then show ?thesis by blast
  next
    case False
    with step have "loop rnd (Suc (Suc i)) = Some r" by (simp add: accepts_def)
    from "1.IH" [OF this] obtain k where
      k: "\<forall>m<k. \<not> accepts rnd (Suc (Suc i) + 2 * m)" "accepts rnd (Suc (Suc i) + 2 * k)"
         "r = (2 * rnd (Suc (Suc i) + 2 * k) - 1, radius_at rnd (Suc (Suc i) + 2 * k),
               Suc (Suc (Suc (Suc i) + 2 * k)))"
      by blast
    have "\<forall>m<Suc k. \<not> accepts rnd (i + 2 * m)"
    proof (intro allI impI)
      fix m assume "m < Suc k"
      show "\<not> accepts rnd (i + 2 * m)"
      proof (cases m)
        case 0
        with False show ?thesis by simp
      next
        case (Suc m')
        with \<open>m < Suc k\<close> have "m' < k" by simp
        with k(1) have "\<not> accepts rnd (Suc (Suc i) + 2 * m')" by blast
        with Suc show ?thesis by simp
      qed
    qed
    moreover from k(2) have "accepts rnd (i + 2 * Suc k)" by simp
    moreover from k(3) have
      "r = (2 * rnd (i + 2 * Suc k) - 1, radius_at rnd (i + 2 * Suc k), Suc (Suc (i + 2 * Suc k)))"
      by simp
    ultimately show ?thesis by blast
  qed
qed


lemma gaussLoop_None_iff: "gaussLoop rnd i = None \<longleftrightarrow> \<not> exits rnd i"
proof
  assume n: "gaussLoop rnd i = None"
  show "\<not> exits rnd i"
  proof
    assume "exits rnd i"
    from gaussLoop_exits [OF this] n show False by simp
  qed
next
  assume e: "\<not> exits rnd i"
  show "gaussLoop rnd i = None"
  proof (cases "gaussLoop rnd i")
    case None
    then show ?thesis .
  next
    case (Some r)
    from gaussLoop_result [OF Some] have "exits rnd i" unfolding exits_def by blast
    with e show ?thesis by simp
  qed
qed


subsection \<open>The generators\<close>

lemma gaussRand_Some:
  "gaussLoop rnd i = Some (z1, radius, j) \<Longrightarrow>
   gaussRand mu sigma rnd i =
     Some ((z1 * sqrt (- 2 * ln radius / radius)) * (case sigma of Some sg \<Rightarrow> sg | None \<Rightarrow> 1)
             + (case mu of Some m \<Rightarrow> m | None \<Rightarrow> 0), j)"
  by (simp add: gaussRand_def)

lemma gaussRand_exits:
  "exits rnd i \<Longrightarrow> \<exists>g j. gaussRand mu sigma rnd i = Some (g, j)"
  using gaussLoop_exits [of rnd i] gaussRand_Some [of rnd i] by blast

lemma gaussRand_sigma0:
  "gaussRand (Some mu) (Some 0) rnd i = Some (g, j) \<Longrightarrow> g = mu"
  by (auto simp: gaussRand_def split: option.splits)

lemma gaussRand_position:
  "gaussRand mu sigma rnd i = Some (g, j) \<Longrightarrow> \<exists>z1 radius. gaussLoop rnd i = Some (z1, radius, j)"
  by (auto simp: gaussRand_def split: option.splits)


lemma binomRand_unfold:
  "0 \<le> N * p * (1 - p) \<Longrightarrow>
   binomRand N p rnd i =
     (case gaussRand (Some (N * p)) (Some (sqrt (N * p * (1 - p)))) rnd i of
        None \<Rightarrow> None
      | Some (g, j) \<Rightarrow> Some (max 0 (real_of_int (round g)), j))"
  by (auto simp: binomRand_def Let_def max_def split: option.splits)

lemma binomRand_nonneg:
  "binomRand N p rnd i = Some (c, j) \<Longrightarrow> 0 \<le> c"
  by (auto simp: binomRand_def Let_def split: option.splits if_splits)

lemma binomRand_exits:
  "exits rnd i \<Longrightarrow> \<exists>c j. binomRand N p rnd i = Some (c, j)"
proof -
  assume e: "exits rnd i"
  from gaussLoop_exits [OF e] obtain z1 radius j where
    l: "gaussLoop rnd i = Some (z1, radius, j)" by blast
  show ?thesis
    by (simp add: binomRand_def gaussRand_Some [OF l] l Let_def)
qed

lemma binomRand_variance0:
  "N * p * (1 - p) = 0 \<Longrightarrow> binomRand N p rnd i = Some (c, j) \<Longrightarrow>
   c = max (real_of_int (round (N * p))) 0"
  by (auto simp: binomRand_def gaussRand_def Let_def max_def split: option.splits if_splits)

lemma binomRand_position:
  "binomRand N p rnd i = Some (c, j) \<Longrightarrow> \<exists>z1 radius. gaussLoop rnd i = Some (z1, radius, j)"
  by (auto simp: binomRand_def gaussRand_def split: option.splits if_splits)

subsection \<open>Concrete tapes\<close>

lemma accepts_tape_tail: "length xs \<le> i \<Longrightarrow> accepts (tape xs) i"
  by (simp add: accepts_def radius_at_def tape_def)

lemma exits_tape: "exits (tape xs) i"
proof -
  have "length xs \<le> i + 2 * length xs" by simp
  then have "accepts (tape xs) (i + 2 * length xs)" by (rule accepts_tape_tail)
  then show ?thesis unfolding exits_def by blast
qed

lemma fair_tape: "fair (tape xs)"
  by (simp add: fair_def exits_tape)

lemma radius_tape_half: "radius_at (tape [1 / 2]) 0 = 1 / 4"
  by (simp add: radius_at_def tape_def)

lemma accepts_tape_half: "accepts (tape [1 / 2]) 0"
  by (simp add: accepts_def radius_at_def tape_def)

lemma gaussLoop_tape_half: "gaussLoop (tape [1 / 2]) 0 = Some (0, 1 / 4, 2)"
  using gaussLoop_accepts [OF accepts_tape_half] 
  by (simp add: radius_tape_half) (simp add: tape_def)

lemma gaussLoop_tape_nil: "gaussLoop (tape []) 0 = Some (1 / 2, 1 / 2, 2)"
  using gaussLoop_accepts [OF accepts_tape_tail, of "[]" 0]
  by (simp add: radius_at_def tape_def)

lemma gaussLoop_centre:
  "rnd i = 1 / 2 \<Longrightarrow> rnd (Suc i) = 3 / 4 \<Longrightarrow> gaussLoop rnd i = Some (0, 1 / 4, Suc (Suc i))"
proof -
  assume a: "rnd i = 1 / 2" and b: "rnd (Suc i) = 3 / 4"
  have r: "radius_at rnd i = 1 / 4" unfolding radius_at_def a b by simp
  have "accepts rnd i" unfolding accepts_def r by simp
  from gaussLoop_accepts [OF this] show ?thesis unfolding r a by simp
qed

lemma gaussRand_centre:
  "rnd i = 1 / 2 \<Longrightarrow> rnd (Suc i) = 3 / 4 \<Longrightarrow>
   gaussRand (Some m) (Some s) rnd i = Some (m, Suc (Suc i))"
proof -
  assume a: "rnd i = 1 / 2" and b: "rnd (Suc i) = 3 / 4"
  from gaussRand_Some [OF gaussLoop_centre [OF a b], of "Some m" "Some s"]
  show ?thesis by simp
qed

lemma binomRand_centre:
  "rnd i = 1 / 2 \<Longrightarrow> rnd (Suc i) = 3 / 4 \<Longrightarrow> 0 \<le> N * p * (1 - p) \<Longrightarrow>
   binomRand N p rnd i = Some (max 0 (real_of_int (round (N * p))), Suc (Suc i))"
proof -
  assume a: "rnd i = 1 / 2" and b: "rnd (Suc i) = 3 / 4" and v: "0 \<le> N * p * (1 - p)"
  show ?thesis
    unfolding binomRand_unfold [OF v] gaussRand_centre [OF a b] by simp
qed

lemma sample_values:
  "sample 0 = 1 / 2" "sample (Suc 0) = 3 / 4" "sample 2 = 2 / 5" "sample 3 = 1 / 2"
  "sample 4 = 1 / 2" "sample (Suc 4) = 3 / 4"
  by (simp_all add: sample_def tape_def)


subsection \<open>The two models\<close>

lemma basicIncome_unfold:
  "basicIncomeCostBenefit rnd i =
     (case gaussRand (Some 250) (Some 75) rnd i of
        None \<Rightarrow> None
      | Some (g, n) \<Rightarrow>
          (case binomRand ((numAdults - laborForce - disabledAdults) *
                            (1 + (rnd n * (0.15 - (- 0.10)) + (- 0.10))))
                          (1 / 10 ^ 7) rnd (Suc (Suc n)) of
             None \<Rightarrow> None
           | Some (b, j) \<Rightarrow>
               Some ([(''directCosts'', numAdults * basicIncome / 2),
                      (''administrativeCosts'', numAdults * g),
                      (''productivity'',
                         - laborForce * (40 * 52 * 25) * (rnd (Suc n) * (0.2 - (- 0.1)) + (- 0.1))),
                      (''jkRowling'', - b * 10 ^ 9)], j)))"
  by (simp add: basicIncomeCostBenefit_def uniformRand_def Math_random_def Let_def
           split: option.splits)

lemma basicJob_unfold:
  "basicJobCostBenefit rnd i =
     (case gaussRand (Some 500) (Some 150) rnd (Suc i) of
        None \<Rightarrow> None
      | Some (g1, n1) \<Rightarrow>
          (case gaussRand (Some 5000) (Some 1500) rnd n1 of
             None \<Rightarrow> None
           | Some (g2, n2) \<Rightarrow>
               Some ([(''directCosts'',
                        (numAdults - disabledAdults - laborForce) *
                          (1 + (rnd i * (0.15 - (- 0.1)) + (- 0.1))) * basicIncome),
                      (''disabled'', disabledAdults * (basicIncome + g1)),
                      (''administrativeCosts'',
                        (numAdults - disabledAdults - laborForce) *
                          (1 + (rnd i * (0.15 - (- 0.1)) + (- 0.1))) * g2),
                      (''productivity'',
                        - ((numAdults - disabledAdults - laborForce) *
                          (1 + (rnd i * (0.15 - (- 0.1)) + (- 0.1)))) *
                          (40 * 50 * (rnd n2 * (7.25 - (- 7.25)) + (- 7.25))))], Suc n2)))"
  by (simp add: basicJobCostBenefit_def uniformRand_def Math_random_def Let_def
           split: option.splits)

lemma basicIncome_keys:
  "basicIncomeCostBenefit rnd i = Some (a, j) \<Longrightarrow> map fst a = biKeys"
  by (auto simp: basicIncome_unfold biKeys_def split: option.splits)

lemma basicJob_keys:
  "basicJobCostBenefit rnd i = Some (a, j) \<Longrightarrow> map fst a = bjKeys"
  by (auto simp: basicJob_unfold bjKeys_def split: option.splits)

lemma basicIncome_fair:
  "fair rnd \<Longrightarrow> \<exists>a j. basicIncomeCostBenefit rnd i = Some (a, j)"
proof -
  assume f: "fair rnd"
  then have e: "exits rnd k" for k by (simp add: fair_def)
  from gaussRand_exits [OF e, of "Some 250" "Some 75" i] obtain g n where
    g: "gaussRand (Some 250) (Some 75) rnd i = Some (g, n)" by blast
  from binomRand_exits [OF e [of "Suc (Suc n)"], of
      "(numAdults - laborForce - disabledAdults) * (1 + (rnd n * (0.15 - (- 0.10)) + (- 0.10)))"
      "1 / 10 ^ 7"]
  obtain b j where
    b: "binomRand ((numAdults - laborForce - disabledAdults) *
                            (1 + (rnd n * (0.15 - (- 0.10)) + (- 0.10))))
                          (1 / 10 ^ 7) rnd (Suc (Suc n)) = Some (b, j)" by blast
  show ?thesis by (subst basicIncome_unfold) (simp only: g b option.case prod.case, blast)
qed

lemma basicJob_fair:
  "fair rnd \<Longrightarrow> \<exists>a j. basicJobCostBenefit rnd i = Some (a, j)"
proof -
  assume f: "fair rnd"
  then have e: "exits rnd k" for k by (simp add: fair_def)
  from gaussRand_exits [OF e, of "Some 500" "Some 150" "Suc i"] obtain g1 n1 where
    g1: "gaussRand (Some 500) (Some 150) rnd (Suc i) = Some (g1, n1)" by blast
  from gaussRand_exits [OF e, of "Some 5000" "Some 1500" n1] obtain g2 n2 where
    g2: "gaussRand (Some 5000) (Some 1500) rnd n1 = Some (g2, n2)" by blast
  show ?thesis by (subst basicJob_unfold) (simp only: g1 g2 option.case prod.case, blast)
qed

lemma directCosts_fixed:
  "basicIncomeCostBenefit rnd i = Some (a, j) \<Longrightarrow>
   map_of a ''directCosts'' = Some (numAdults * basicIncome / 2)"
  by (subst (asm) basicIncome_unfold) (auto split: option.splits)



lemma basicIncome_sample:
  "basicIncomeCostBenefit sample 0 =
     Some ([(''directCosts'', 1645750000000), (''administrativeCosts'', 56750000000),
            (''productivity'', - 400400000000), (''jkRowling'', - 5000000000)], 6)"
proof -
  have g: "gaussRand (Some 250) (Some 75) sample 0 = Some (250, 2)"
    using gaussRand_centre [of sample 0 250 75, OF sample_values(1,2)] by simp
  have "binomRand 52000000 (1 / 10 ^ 7) sample 4 =
        Some (max 0 (real_of_int (round (52000000 * (1 / 10 ^ 7) :: real))), Suc (Suc 4))"
    by (rule binomRand_centre [of sample 4, OF sample_values(5,6)]) simp
  then have b: "binomRand 52000000 (1 / 10000000) sample 4 = Some (5, 6)"
    by (simp add: round_def)
  show ?thesis
    by (subst basicIncome_unfold)
       (simp add: g b sample_values numAdults_def laborForce_def disabledAdults_def
          basicIncome_def)
qed


subsection \<open>The reducer\<close>

lemma array_reduce_present:
  "array_reduce f init xs = fold (\<lambda>x acc. f acc x) (present xs) init"
  unfolding array_reduce_def present_def
  by (induction xs arbitrary: init) (auto split: option.splits)

lemma present_map_Some: "present (map Some xs) = xs"
  by (induction xs) (simp_all add: present_def)

lemma mset_present: "mset xs = mset ys \<Longrightarrow> mset (present xs) = mset (present ys)"
proof -
  assume eq: "mset xs = mset ys"
  let ?f = "\<lambda>slot. case slot of None \<Rightarrow> {#} | Some x \<Rightarrow> {#x#}"
  have p: "mset (present zs) = sum_mset (image_mset ?f (mset zs))" for zs :: "'a array"
    by (induction zs) (auto simp: present_def split: option.splits)
  show ?thesis by (simp add: p eq)
qed

lemma step_map:
  "map_of (if hasOwnProperty avg key then AList.map_entry key (\<lambda>a. a + v / N) avg
           else AList.update key (v / N) avg) = add_entry N (key, v) (map_of avg)"
  by (auto simp: hasOwnProperty_def add_entry_def map_of_map_entry update_conv')

lemma reducer_map:
  "map_of (amountsAvgReducer N avg a) = fold (add_entry N) a (map_of avg)"
proof (induction a arbitrary: avg)
  case Nil
  show ?case by (simp add: amountsAvgReducer_def)
next
  case (Cons kv a)
  obtain key v where kv: "kv = (key, v)" by (cases kv)
  have "amountsAvgReducer N avg (kv # a) =
        amountsAvgReducer N
          (if hasOwnProperty avg key then AList.map_entry key (\<lambda>a. a + v / N) avg
           else AList.update key (v / N) avg) a"
    by (simp add: amountsAvgReducer_def kv)
  then show ?case by (simp only: Cons.IH step_map kv fold_simps comp_apply)
qed

lemma reducer_distinct:
  "distinct (map fst avg) \<Longrightarrow> distinct (map fst (amountsAvgReducer N avg a))"
proof (induction a arbitrary: avg)
  case Nil
  then show ?case by (simp add: amountsAvgReducer_def)
next
  case (Cons kv a)
  obtain key v where kv: "kv = (key, v)" by (cases kv)
  let ?avg = "if hasOwnProperty avg key then AList.map_entry key (\<lambda>a. a + v / N) avg
           else AList.update key (v / N) avg"
  have eq: "amountsAvgReducer N avg (kv # a) = amountsAvgReducer N ?avg a"
    by (simp add: amountsAvgReducer_def kv)
  from Cons.prems have "distinct (map fst ?avg)"
    by (simp add: distinct_map_entry distinct_update)
  then show ?case unfolding eq by (rule Cons.IH)
qed

lemma average_fold:
  "average N xs = fold (\<lambda>a avg. amountsAvgReducer N avg a) (present xs) []"
  by (simp add: average_def array_reduce_present)

lemma collection_map:
  "map_of (fold (\<lambda>a avg. amountsAvgReducer N avg a) xs avg) =
   fold (add_entry N) (concat xs) (map_of avg)"
  by (induction xs arbitrary: avg) (simp_all add: reducer_map)

lemma collection_distinct:
  "distinct (map fst avg) \<Longrightarrow>
   distinct (map fst (fold (\<lambda>a avg. amountsAvgReducer N avg a) xs avg))"
  by (induction xs arbitrary: avg) (simp_all add: reducer_distinct)

lemma add_entry_commute:
  "add_entry N p \<circ> add_entry N q = add_entry N q \<circ> add_entry N p"
proof -
  obtain k v where p: "p = (k, v)" by (cases p)
  obtain k' w where q: "q = (k', w)" by (cases q)
  show ?thesis
    by (rule ext) (auto simp: p q add_entry_def fun_upd_twist split: option.splits)
qed

lemma mset_concat_cong:
  "mset xs = mset ys \<Longrightarrow> mset (concat xs) = mset (concat ys)"
proof -
  assume eq: "mset xs = mset ys"
  have "mset (concat zs) = sum_mset (image_mset mset (mset zs))" for zs :: "'a list list"
    by (induction zs) simp_all
  with eq show ?thesis by simp
qed

lemma average_map_of:
  "map_of (average N xs) = fold (add_entry N) (concat (present xs)) Map.empty"
  by (simp add: average_fold collection_map)

lemma average_permuted:
  "mset xs = mset ys \<Longrightarrow> map_of (average N xs) = map_of (average N ys)"
proof -
  assume "mset xs = mset ys"
  then have "mset (concat (present xs)) = mset (concat (present ys))"
    by (intro mset_concat_cong mset_present)
  then have "fold (add_entry N) (concat (present xs)) = fold (add_entry N) (concat (present ys))"
    by (intro fold_multiset_equiv add_entry_commute)
  then show ?thesis by (simp add: average_map_of)
qed

lemma average_distinct: "distinct (map fst (average N xs))"
  by (simp add: average_fold collection_distinct)

text \<open>The sum of the values, and the keys, of an average.\<close>

lemma sum_update_new:
  "map_of al k = None \<Longrightarrow>
   sum_list (map snd (AList.update k v al)) = sum_list (map snd al) + (v::real)"
  by (induction al) (auto split: if_splits)

lemma sum_map_entry:
  "map_of al k \<noteq> None \<Longrightarrow>
   sum_list (map snd (AList.map_entry k (\<lambda>a. a + d) al)) = sum_list (map snd al) + (d::real)"
  by (induction al) (auto split: if_splits)

lemma reducer_sum:
  "sum_list (map snd (amountsAvgReducer N avg a)) =
   sum_list (map snd avg) + sum_list (map snd a) / N"
proof (induction a arbitrary: avg)
  case Nil
  show ?case by (simp add: amountsAvgReducer_def)
next
  case (Cons kv a)
  obtain key v where kv: "kv = (key, v)" by (cases kv)
  let ?avg = "if hasOwnProperty avg key then AList.map_entry key (\<lambda>a. a + v / N) avg
           else AList.update key (v / N) avg"
  have eq: "amountsAvgReducer N avg (kv # a) = amountsAvgReducer N ?avg a"
    by (simp add: amountsAvgReducer_def kv)
  have "sum_list (map snd ?avg) = sum_list (map snd avg) + v / N"
    by (simp add: hasOwnProperty_def sum_update_new sum_map_entry)
  then show ?case unfolding eq Cons.IH by (simp add: kv add_divide_distrib)
qed

lemma collection_sum:
  "sum_list (map snd (fold (\<lambda>a avg. amountsAvgReducer N avg a) xs avg)) =
   sum_list (map snd avg) + (\<Sum>a\<leftarrow>xs. sum_list (map snd a)) / N"
  by (induction xs arbitrary: avg) (simp_all add: reducer_sum add_divide_distrib)

lemma trialTotal_fold:
  "fold (\<lambda>(key, v) total. v / 10 ^ 12 + total) a t = t + sum_list (map snd a) / (10 ^ 12 :: real)"
  by (induction a arbitrary: t) (auto simp: add_divide_distrib)

lemma trialTotal_sum: "trialTotal a = sum_list (map snd a) / 10 ^ 12"
  unfolding trialTotal_def trialTotal_fold by simp

lemma sum_trialTotals:
  "sum_list (map trialTotal xs) = (\<Sum>a\<leftarrow>xs. sum_list (map snd a)) / 10 ^ 12"
  by (induction xs) (simp_all add: trialTotal_sum add_divide_distrib)

lemma dom_add_entries: "dom (fold (add_entry N) l m) = dom m \<union> fst ` set l"
  by (induction l arbitrary: m) (auto simp: add_entry_def)

lemma average_keys: "fst ` set (average N xs) = fst ` set (concat (present xs))"
proof -
  have "fst ` set (average N xs) = dom (map_of (average N xs))"
    by (simp add: dom_map_of_conv_image_fst)
  also have "\<dots> = fst ` set (concat (present xs))"
    by (simp add: average_map_of dom_add_entries)
  finally show ?thesis .
qed

lemma average_keys_fixed:
  "xs \<noteq> [] \<Longrightarrow> \<forall>a\<in>set xs. map fst a = ks \<Longrightarrow> set (map fst (average N (map Some xs))) = set ks"
proof -
  assume ne: "xs \<noteq> []" and k: "\<forall>a\<in>set xs. map fst a = ks"
  from k have "\<And>a. a \<in> set xs \<Longrightarrow> fst ` set a = set ks" by (metis set_map)
  with ne have "(\<Union>a\<in>set xs. fst ` set a) = set ks" by (cases xs) auto
  then show ?thesis by (simp add: average_keys present_map_Some image_UN)
qed

subsection \<open>The loop of run\<close>

lemma spliced_Nil: "spliced i [] xs = xs"
  by (simp add: spliced_def)

lemma array_set_le:
  "i \<le> length xs \<Longrightarrow> array_set xs i v = take i xs @ Some v # drop (Suc i) xs"
  by (cases "i < length xs") (simp_all add: array_set_def upd_conv_take_nth_drop)

lemma length_array_set: "i \<le> length xs \<Longrightarrow> Suc i \<le> length (array_set xs i v)"
  by (simp add: array_set_le)

lemma spliced_array_set:
  "i \<le> length xs \<Longrightarrow> spliced (Suc i) vs (array_set xs i v) = spliced i (v # vs) xs"
  by (simp add: spliced_def array_set_le min_def add.commute)

lemma spliced_all:
  "length xs \<le> length vs \<Longrightarrow> spliced 0 vs xs = map Some vs"
  by (simp add: spliced_def)

lemma run_loop_done: "\<not> int i < N \<Longrightarrow> run_loop N i g rnd p = Some (g, p)"
  by (subst run_loop.simps) simp

lemma run_loop_step:
  "int i < N \<Longrightarrow> basicIncomeCostBenefit rnd p = Some (bi, p1) \<Longrightarrow>
   basicJobCostBenefit rnd p1 = Some (bj, p2) \<Longrightarrow>
   run_loop N i g rnd p =
     run_loop N (Suc i)
       (g\<lparr>biAmounts := array_set (biAmounts g) i bi,
          biTotals := array_set (biTotals g) i (trialTotal bi),
          bjAmounts := array_set (bjAmounts g) i bj,
          bjTotals := array_set (bjTotals g) i (trialTotal bj)\<rparr>) rnd p2"
  by (subst run_loop.simps) simp

lemma run_loop_stepD:
  "int i < N \<Longrightarrow> run_loop N i g rnd p = Some r \<Longrightarrow>
   \<exists>bi p1 bj p2. basicIncomeCostBenefit rnd p = Some (bi, p1) \<and>
     basicJobCostBenefit rnd p1 = Some (bj, p2) \<and>
     run_loop N (Suc i)
       (g\<lparr>biAmounts := array_set (biAmounts g) i bi,
          biTotals := array_set (biTotals g) i (trialTotal bi),
          bjAmounts := array_set (bjAmounts g) i bj,
          bjTotals := array_set (bjTotals g) i (trialTotal bj)\<rparr>) rnd p2 = Some r"
  by (subst (asm) run_loop.simps) (auto split: option.splits)

lemma run_loop_fair:
  "fair rnd \<Longrightarrow> \<exists>g' p'. run_loop N i g rnd p = Some (g', p')"
proof (induction "nat (N - int i)" arbitrary: i g p)
  case 0
  then have "\<not> int i < N" by simp
  then show ?case by (simp add: run_loop_done)
next
  case (Suc n)
  then have lt: "int i < N" and n: "n = nat (N - int (Suc i))" by simp_all
  from basicIncome_fair [OF Suc.prems, of p] obtain bi p1 where
    bi: "basicIncomeCostBenefit rnd p = Some (bi, p1)" by blast
  from basicJob_fair [OF Suc.prems, of p1] obtain bj p2 where
    bj: "basicJobCostBenefit rnd p1 = Some (bj, p2)" by blast
  from Suc.hyps(1) [OF n Suc.prems] show ?case
    unfolding run_loop_step [OF lt bi bj] .
qed

lemma run_loop_effect:
  "run_loop N i g rnd p = Some (g', p') \<Longrightarrow>
   i \<le> length (biAmounts g) \<Longrightarrow> i \<le> length (biTotals g) \<Longrightarrow>
   i \<le> length (bjAmounts g) \<Longrightarrow> i \<le> length (bjTotals g) \<Longrightarrow>
   \<exists>bis bjs. length bis = nat (N - int i) \<and> length bjs = nat (N - int i) \<and>
     (\<forall>a\<in>set bis. map fst a = biKeys) \<and> (\<forall>a\<in>set bjs. map fst a = bjKeys) \<and>
     biAmounts g' = spliced i bis (biAmounts g) \<and>
     biTotals g' = spliced i (map trialTotal bis) (biTotals g) \<and>
     bjAmounts g' = spliced i bjs (bjAmounts g) \<and>
     bjTotals g' = spliced i (map trialTotal bjs) (bjTotals g) \<and>
     biAmountsAvg g' = biAmountsAvg g \<and> bjAmountsAvg g' = bjAmountsAvg g"
proof (induction "nat (N - int i)" arbitrary: i g p)
  case 0
  then have "\<not> int i < N" by simp
  with "0.prems"(1) have "g' = g" by (simp add: run_loop_done)
  with "0.hyps" show ?case by (simp add: spliced_Nil)
next
  case (Suc n)
  then have lt: "int i < N" and n: "n = nat (N - int (Suc i))" by simp_all
  from run_loop_stepD [OF lt Suc.prems(1)] obtain bi p1 bj p2 where
    bi: "basicIncomeCostBenefit rnd p = Some (bi, p1)" and
    bj: "basicJobCostBenefit rnd p1 = Some (bj, p2)" and
    rest: "run_loop N (Suc i)
       (g\<lparr>biAmounts := array_set (biAmounts g) i bi,
          biTotals := array_set (biTotals g) i (trialTotal bi),
          bjAmounts := array_set (bjAmounts g) i bj,
          bjTotals := array_set (bjTotals g) i (trialTotal bj)\<rparr>) rnd p2 = Some (g', p')"
    by blast
  let ?g = "g\<lparr>biAmounts := array_set (biAmounts g) i bi,
          biTotals := array_set (biTotals g) i (trialTotal bi),
          bjAmounts := array_set (bjAmounts g) i bj,
          bjTotals := array_set (bjTotals g) i (trialTotal bj)\<rparr>"
  from Suc.prems(2-5) have len:
    "Suc i \<le> length (biAmounts ?g)" "Suc i \<le> length (biTotals ?g)"
    "Suc i \<le> length (bjAmounts ?g)" "Suc i \<le> length (bjTotals ?g)"
    by (simp_all add: length_array_set)
  from Suc.hyps(1) [OF n rest len] obtain bis bjs where
    IH: "length bis = nat (N - int (Suc i))" "length bjs = nat (N - int (Suc i))"
     "\<forall>a\<in>set bis. map fst a = biKeys" "\<forall>a\<in>set bjs. map fst a = bjKeys"
     "biAmounts g' = spliced (Suc i) bis (biAmounts ?g)"
     "biTotals g' = spliced (Suc i) (map trialTotal bis) (biTotals ?g)"
     "bjAmounts g' = spliced (Suc i) bjs (bjAmounts ?g)"
     "bjTotals g' = spliced (Suc i) (map trialTotal bjs) (bjTotals ?g)"
     "biAmountsAvg g' = biAmountsAvg ?g" "bjAmountsAvg g' = bjAmountsAvg ?g"
    by blast
  from lt IH(1,2) have l: "length (bi # bis) = nat (N - int i)" "length (bj # bjs) = nat (N - int i)"
    by simp_all
  from IH(3,4) basicIncome_keys [OF bi] basicJob_keys [OF bj] have k:
    "\<forall>a\<in>set (bi # bis). map fst a = biKeys" "\<forall>a\<in>set (bj # bjs). map fst a = bjKeys"
    by simp_all
  from IH(5-8) Suc.prems(2-5) have a:
     "biAmounts g' = spliced i (bi # bis) (biAmounts g)"
     "biTotals g' = spliced i (map trialTotal (bi # bis)) (biTotals g)"
     "bjAmounts g' = spliced i (bj # bjs) (bjAmounts g)"
     "bjTotals g' = spliced i (map trialTotal (bj # bjs)) (bjTotals g)"
    by (simp_all add: spliced_array_set)
  from IH(9,10) have v: "biAmountsAvg g' = biAmountsAvg g" "bjAmountsAvg g' = bjAmountsAvg g"
    by simp_all
  from l k a v show ?case by blast
qed

lemma runN_fair: "fair rnd \<Longrightarrow> \<exists>g' p'. runN N g rnd p = Some (g', p')"
  using run_loop_fair [of rnd N 0 g p] by (auto simp: runN_def)

lemma run_fair: "fair rnd \<Longrightarrow> \<exists>g' p'. run g rnd p = Some (g', p')"
  unfolding run_def by (rule runN_fair)

lemma runN_effect:
  assumes r: "runN N g rnd p = Some (g', p')" and w: "fits (nat N) g"
  shows "\<exists>bis bjs. length bis = nat N \<and> length bjs = nat N \<and>
     (\<forall>a\<in>set bis. map fst a = biKeys) \<and> (\<forall>a\<in>set bjs. map fst a = bjKeys) \<and>
     biAmounts g' = map Some bis \<and> biTotals g' = map Some (map trialTotal bis) \<and>
     bjAmounts g' = map Some bjs \<and> bjTotals g' = map Some (map trialTotal bjs) \<and>
     biAmountsAvg g' = Some (average (real_of_int N) (map Some bis)) \<and>
     bjAmountsAvg g' = Some (average (real_of_int N) (map Some bjs))"
proof -
  from r obtain g1 where
    l: "run_loop N 0 g rnd p = Some (g1, p')" and
    g': "g' = g1\<lparr>biAmountsAvg := Some (average (real_of_int N) (biAmounts g1)),
                  bjAmountsAvg := Some (average (real_of_int N) (bjAmounts g1))\<rparr>"
    by (auto simp: runN_def split: option.splits)
  from run_loop_effect [OF l] obtain bis bjs where
    e: "length bis = nat (N - int 0)" "length bjs = nat (N - int 0)"
     "\<forall>a\<in>set bis. map fst a = biKeys" "\<forall>a\<in>set bjs. map fst a = bjKeys"
     "biAmounts g1 = spliced 0 bis (biAmounts g)"
     "biTotals g1 = spliced 0 (map trialTotal bis) (biTotals g)"
     "bjAmounts g1 = spliced 0 bjs (bjAmounts g)"
     "bjTotals g1 = spliced 0 (map trialTotal bjs) (bjTotals g)"
    by auto
  from e(1,2) have len: "length bis = nat N" "length bjs = nat N" by simp_all
  from w len e(5-8) have a:
     "biAmounts g1 = map Some bis" "biTotals g1 = map Some (map trialTotal bis)"
     "bjAmounts g1 = map Some bjs" "bjTotals g1 = map Some (map trialTotal bjs)"
    by (simp_all add: fits_def spliced_all)
  from g' a have
     "biAmounts g' = map Some bis" "biTotals g' = map Some (map trialTotal bis)"
     "bjAmounts g' = map Some bjs" "bjTotals g' = map Some (map trialTotal bjs)"
     "biAmountsAvg g' = Some (average (real_of_int N) (map Some bis))"
     "bjAmountsAvg g' = Some (average (real_of_int N) (map Some bjs))"
    by simp_all
  with len e(3,4) show ?thesis by blast
qed

lemma run_effect:
  assumes r: "run g rnd p = Some (g', p')" and w: "fits 1000 g"
  shows "\<exists>bis bjs. length bis = 1000 \<and> length bjs = 1000 \<and>
     (\<forall>a\<in>set bis. map fst a = biKeys) \<and> (\<forall>a\<in>set bjs. map fst a = bjKeys) \<and>
     biAmounts g' = map Some bis \<and> biTotals g' = map Some (map trialTotal bis) \<and>
     bjAmounts g' = map Some bjs \<and> bjTotals g' = map Some (map trialTotal bjs) \<and>
     biAmountsAvg g' = Some (average 1000 (map Some bis)) \<and>
     bjAmountsAvg g' = Some (average 1000 (map Some bjs))"
  using runN_effect [of 1000 g rnd p g' p'] r w by (simp add: run_def)

lemma fits_init: "fits n init_globals"
  by (simp add: fits_def init_globals_def)

lemma reachable_fits: "reachable g \<Longrightarrow> fits 1000 g"
proof (induction rule: reachable.induct)
  case initial
  show ?case by (rule fits_init)
next
  case (after_run g rnd p g' p')
  from run_effect [OF after_run.hyps(2) after_run.IH] show ?case
    by (auto simp: fits_def)
qed

subsection \<open>Rounding to a double\<close>

lemma to_double_scaled:
  assumes lo: "2 ^ 52 \<le> q" and hi: "q < 2 ^ 53"
  shows "to_double (q * 2 powr of_int e) = of_int (round_even q) * 2 powr of_int e"
proof -
  let ?x = "q * 2 powr of_int e"
  from lo have qpos: "0 < q" by (rule less_le_trans [rotated]) simp
  then have xpos: "0 < ?x" by simp
  have "2 powr (of_int (52 + e)) \<le> ?x"
  proof -
    have "2 powr (of_int (52 + e)) = (2 ^ 52 :: real) * 2 powr of_int e"
      by (simp add: powr_add)
    also from lo have "\<dots> \<le> q * 2 powr of_int e" by (simp add: mult_right_mono)
    finally show ?thesis .
  qed
  moreover have "?x < 2 powr (of_int (52 + e) + 1)"
  proof -
    from hi have "q * 2 powr of_int e < 2 ^ 53 * 2 powr of_int e"
      by (simp add: mult_strict_right_mono)
    also have "\<dots> = 2 powr (of_int (52 + e) + 1)" by (simp add: powr_add)
    finally show ?thesis .
  qed
  ultimately have "\<lfloor>log 2 ?x\<rfloor> = 52 + e"
    using floor_log_eq_powr_iff [of ?x 2 "52 + e"] xpos by simp
  with xpos have e: "\<lfloor>log 2 \<bar>?x\<bar>\<rfloor> - 52 = e" by simp
  from qpos have "?x \<noteq> 0" by simp
  then show ?thesis unfolding to_double_def e Let_def by simp
qed

text \<open>
  Two checks of \<^term>\<open>to_double\<close> against well-known doubles: the double nearest to \<open>1 / 10\<close> is
  \<open>3602879701896397 / 2 ^ 55\<close>, and \<^verbatim>\<open>0.1 + 0.2\<close> evaluates to \<open>5404319552844596 / 2 ^ 54\<close>,
  which prints as \<^verbatim>\<open>0.30000000000000004\<close>.
\<close>

lemma to_double_tenth: "to_double (1 / 10) = 3602879701896397 / 36028797018963968"
  using to_double_scaled [of "72057594037927936 / 10" "- 56"]
  by (simp add: round_even_def powr_neg_numeral)

lemma to_double_fifth: "to_double (1 / 5) = 3602879701896397 / 18014398509481984"
  using to_double_scaled [of "72057594037927936 / 10" "- 55"]
  by (simp add: round_even_def powr_neg_numeral)

lemma to_double_tenth_plus_fifth:
  "to_double (to_double (1 / 10) + to_double (1 / 5)) = 5404319552844596 / 18014398509481984"
  using to_double_scaled [of "10808639105689191 / 2" "- 54"]
  by (simp add: to_double_tenth to_double_fifth round_even_def powr_neg_numeral)

text \<open>The doubles that the two counterexamples meet.\<close>

lemma to_double_1: "to_double 1 = 1"
  using to_double_scaled [of "2 ^ 52" "- 52"] by (simp add: round_even_def powr_neg_numeral)

lemma to_double_2: "to_double 2 = 2"
  using to_double_scaled [of "2 ^ 52" "- 51"] by (simp add: round_even_def powr_neg_numeral)

lemma to_double_2p53: "to_double 9007199254740992 = 9007199254740992"
  using to_double_scaled [of "2 ^ 52" 1] by (simp add: round_even_def)

lemma to_double_2p53_1: "to_double 9007199254740993 = 9007199254740992"
  using to_double_scaled [of "9007199254740993 / 2" 1] by (simp add: round_even_def)

lemma to_double_2p53_2: "to_double 9007199254740994 = 9007199254740994"
  using to_double_scaled [of "9007199254740994 / 2" 1] by (simp add: round_even_def)

lemma to_double_eps: "to_double (1 / 4503599627370496) = 1 / 4503599627370496"
  using to_double_scaled [of "2 ^ 52" "- 104"] by (simp add: round_even_def powr_neg_numeral)

lemma to_double_below_eps:
  "to_double (9007199254740991 / 40564819207303340847894502572032) =
   9007199254740991 / 40564819207303340847894502572032"
  using to_double_scaled [of "9007199254740991" "- 105"]
  by (simp add: round_even_def powr_neg_numeral)

lemma to_double_below_next:
  "to_double (40564819207303349855093757313023 / 40564819207303340847894502572032) =
   4503599627370497 / 4503599627370496"
  using to_double_scaled
    [of "40564819207303349855093757313023 / 9007199254740992" "- 52"]
  by (simp add: round_even_def powr_neg_numeral)

lemma reducer64_keys:
  "fst ` set (amountsAvgReducer64 N avg a) = fst ` set avg \<union> fst ` set a"
proof (induction a arbitrary: avg)
  case Nil
  show ?case by (simp add: amountsAvgReducer64_def)
next
  case (Cons kv a)
  obtain key v where kv: "kv = (key, v)" by (cases kv)
  let ?avg = "if hasOwnProperty avg key
              then AList.map_entry key (\<lambda>a. to_double (a + to_double (v / N))) avg
              else AList.update key (to_double (v / N)) avg"
  have eq: "amountsAvgReducer64 N avg (kv # a) = amountsAvgReducer64 N ?avg a"
    by (simp add: amountsAvgReducer64_def kv)
  have "fst ` set ?avg = insert key (fst ` set avg)"
    by (auto simp: hasOwnProperty_def dom_map_entry dom_update map_of_eq_None_iff)
  then show ?case unfolding eq Cons.IH by (auto simp: kv)
qed

lemma collection64_keys:
  "fst ` set (fold (\<lambda>a avg. amountsAvgReducer64 N avg a) xs avg) =
   fst ` set avg \<union> (\<Union>a\<in>set xs. fst ` set a)"
  by (induction xs arbitrary: avg) (auto simp: reducer64_keys)

lemma average64_keys: "fst ` set (average64 N xs) = (\<Union>a\<in>set (present xs). fst ` set a)"
  by (simp add: average64_def array_reduce_present collection64_keys)

lemma average64_keys_permuted:
  "mset xs = mset ys \<Longrightarrow> fst ` set (average64 N xs) = fst ` set (average64 N ys)"
proof -
  assume "mset xs = mset ys"
  then have "mset (present xs) = mset (present ys)" by (rule mset_present)
  then have "set (present xs) = set (present ys)" by (rule mset_eq_setD)
  then show ?thesis by (simp add: average64_keys)
qed

lemma average64_big_first:
  "average64 1000 [Some [(''k'', 9007199254740992000)], Some [(''k'', 1000)], Some [(''k'', 1000)]] =
     [(''k'', 9007199254740992)]"
  by (simp add: average64_def array_reduce_def amountsAvgReducer64_def hasOwnProperty_def
        to_double_1 to_double_2p53 to_double_2p53_1)

lemma average64_big_last:
  "average64 1000 [Some [(''k'', 1000)], Some [(''k'', 1000)], Some [(''k'', 9007199254740992000)]] =
     [(''k'', 9007199254740994)]"
  by (simp add: average64_def array_reduce_def amountsAvgReducer64_def hasOwnProperty_def
        to_double_1 to_double_2 to_double_2p53 to_double_2p53_2)

subsection \<open>Rounding errors of the totals and of the average\<close>

text \<open>Rounding to the nearest double has a relative error of at most the unit roundoff.\<close>

lemma round_even_err: "\<bar>of_int (round_even q) - q\<bar> \<le> 1 / 2"
proof -
  have "of_int \<lfloor>q\<rfloor> \<le> q" "q < of_int \<lfloor>q\<rfloor> + 1" by linarith+
  then show ?thesis by (auto simp: round_even_def Let_def)
qed

lemma to_double_err: "\<bar>to_double x - x\<bar> \<le> unit_roundoff * \<bar>x\<bar>"
proof (cases "x = 0")
  case True
  then show ?thesis by (simp add: to_double_def)
next
  case False
  define k where "k = \<lfloor>log 2 \<bar>x\<bar>\<rfloor>"
  define s :: real where "s = 2 powr of_int (k - 52)"
  have spos: "0 < s" by (simp add: s_def)
  from False have xpos: "0 < \<bar>x\<bar>" by simp
  from floor_log_eq_powr_iff [of "\<bar>x\<bar>" 2 k] xpos have lo: "2 powr of_int k \<le> \<bar>x\<bar>"
    by (simp add: k_def)
  have "2 powr of_int k = 2 ^ 52 * s"
    by (simp add: s_def powr_diff)
  with lo have big: "2 ^ 52 * s \<le> \<bar>x\<bar>" by simp
  have td: "to_double x = of_int (round_even (x / s)) * s"
    using False by (simp add: to_double_def Let_def k_def s_def)
  have "to_double x - x = (of_int (round_even (x / s)) - x / s) * s"
    using spos by (simp add: td field_simps)
  then have "\<bar>to_double x - x\<bar> = \<bar>of_int (round_even (x / s)) - x / s\<bar> * s"
    using spos by (simp add: abs_mult)
  also have "\<dots> \<le> 1 / 2 * s"
    using round_even_err [of "x / s"] spos by (simp add: mult_right_mono)
  also have "\<dots> = unit_roundoff * (2 ^ 52 * s)" by (simp add: unit_roundoff_def)
  also have "\<dots> \<le> unit_roundoff * \<bar>x\<bar>"
    using big by (simp add: unit_roundoff_def)
  finally show ?thesis .
qed

lemma unit_roundoff_pos: "0 < unit_roundoff"
  by (simp add: unit_roundoff_def)

text \<open>One rounded addition of a rounded term to an accumulator.\<close>

lemma add_err:
  assumes c: "1 + unit_roundoff \<le> c"
    and a: "\<bar>ah - a\<bar> \<le> (c - 1) * A" and aA: "\<bar>a\<bar> \<le> A"
    and t: "\<bar>th - t\<bar> \<le> unit_roundoff * \<bar>t\<bar>"
  shows "\<bar>to_double (ah + th) - (a + t)\<bar> \<le> ((1 + unit_roundoff) * c - 1) * (A + \<bar>t\<bar>)"
proof -
  let ?u = unit_roundoff
  note u = unit_roundoff_pos
  define E where "E = (c - 1) * A + ?u * \<bar>t\<bar>"
  from aA have A0: "0 \<le> A" by linarith
  have s: "\<bar>(ah + th) - (a + t)\<bar> \<le> E" using a t unfolding E_def by linarith
  then have b: "\<bar>ah + th\<bar> \<le> A + \<bar>t\<bar> + E" using aA by linarith
  have "\<bar>to_double (ah + th) - (ah + th)\<bar> \<le> ?u * \<bar>ah + th\<bar>" by (rule to_double_err)
  also have "\<dots> \<le> ?u * (A + \<bar>t\<bar> + E)" using b u by (simp add: mult_left_mono)
  finally have "\<bar>to_double (ah + th) - (a + t)\<bar> \<le> ?u * (A + \<bar>t\<bar> + E) + E"
    using s by linarith
  also have "\<dots> = ?u * (A + \<bar>t\<bar>) + (1 + ?u) * E" by (simp add: algebra_simps)
  also have "\<dots> \<le> ?u * (A + \<bar>t\<bar>) + (1 + ?u) * ((c - 1) * (A + \<bar>t\<bar>))"
  proof -
    from c have "?u * \<bar>t\<bar> \<le> (c - 1) * \<bar>t\<bar>" by (simp add: mult_right_mono)
    then have "E \<le> (c - 1) * (A + \<bar>t\<bar>)" unfolding E_def by (simp add: algebra_simps)
    with u show ?thesis by (simp add: mult_left_mono)
  qed
  also have "\<dots> = ((1 + ?u) * c - 1) * (A + \<bar>t\<bar>)" by (simp add: algebra_simps)
  finally show ?thesis .
qed

lemma sum_abs_values: "sum_values (abs_values a) = (\<Sum>v\<leftarrow>map snd a. \<bar>v\<bar>)"
  by (induction a) (auto simp: sum_values_def abs_values_def)

lemma sum_abs_values_nonneg: "0 \<le> sum_values (abs_values a)"
  unfolding sum_abs_values by (induction a) auto

text \<open>The total of a trial on doubles, and its distance from the exact total.\<close>

lemma total64_fold:
  assumes "1 + unit_roundoff \<le> c" and "\<bar>th - t\<bar> \<le> (c - 1) * B" and "\<bar>t\<bar> \<le> B"
  shows "\<bar>fold (\<lambda>(key, v) total. to_double (to_double (v / 10 ^ 12) + total)) a th -
          fold (\<lambda>(key, v) total. v / 10 ^ 12 + total) a t\<bar>
         \<le> ((1 + unit_roundoff) ^ length a * c - 1) * (B + sum_values (abs_values a) / 10 ^ 12) \<and>
         \<bar>fold (\<lambda>(key, v) total. v / 10 ^ 12 + total) a t\<bar>
         \<le> B + sum_values (abs_values a) / 10 ^ 12"
  using assms
proof (induction a arbitrary: c th t B)
  case Nil
  then show ?case by (simp add: sum_values_def abs_values_def)
next
  case (Cons kv a)
  obtain key v where kv: "kv = (key, v)" by (cases kv)
  let ?u = unit_roundoff
  let ?t = "v / 10 ^ 12 :: real"
  have te: "\<bar>to_double ?t - ?t\<bar> \<le> ?u * \<bar>?t\<bar>" by (rule to_double_err)
  from add_err [OF Cons.prems(1) Cons.prems(2) Cons.prems(3) te]
  have e: "\<bar>to_double (to_double ?t + th) - (?t + t)\<bar> \<le> ((1 + ?u) * c - 1) * (B + \<bar>?t\<bar>)"
    by (simp add: add.commute)
  from Cons.prems(3) have b: "\<bar>?t + t\<bar> \<le> B + \<bar>?t\<bar>" by linarith
  from Cons.prems(1) unit_roundoff_pos have c': "1 + ?u \<le> (1 + ?u) * c"
    by (simp add: mult_le_cancel_left_pos)
  note IH = Cons.IH [OF c' e b]
  have p: "(1 + ?u) ^ length (kv # a) * c = (1 + ?u) ^ length a * ((1 + ?u) * c)"
    by simp
  have s: "B + sum_values (abs_values (kv # a)) / 10 ^ 12 =
           B + \<bar>?t\<bar> + sum_values (abs_values a) / 10 ^ 12"
    by (simp add: kv sum_values_def abs_values_def add_divide_distrib)
  have f1: "fold (\<lambda>(key, v) total. to_double (to_double (v / 10 ^ 12) + total)) (kv # a) th =
            fold (\<lambda>(key, v) total. to_double (to_double (v / 10 ^ 12) + total)) a
              (to_double (to_double ?t + th))"
    by (simp add: kv)
  have f2: "fold (\<lambda>(key, v) total. v / 10 ^ 12 + total) (kv # a) t =
            fold (\<lambda>(key, v) total. v / 10 ^ 12 + total) a (?t + t)"
    by (simp add: kv)
  show ?case unfolding p s f1 f2 by (rule IH)
qed

lemma trialTotal64_err:
  "\<bar>trialTotal64 a - trialTotal a\<bar>
   \<le> ((1 + unit_roundoff) ^ (length a + 1) - 1) * (sum_values (abs_values a) / 10 ^ 12)"
proof -
  have 1: "1 + unit_roundoff \<le> 1 + unit_roundoff" by simp
  have 2: "\<bar>0 - (0::real)\<bar> \<le> (1 + unit_roundoff - 1) * 0" by simp
  have 3: "\<bar>0::real\<bar> \<le> 0" by simp
  have p: "(1 + unit_roundoff) ^ length a * (1 + unit_roundoff) = (1 + unit_roundoff) ^ (length a + 1)"
    by simp
  have z: "0 + sum_values (abs_values a) / 10 ^ 12 = sum_values (abs_values a) / 10 ^ 12"
    by simp
  from conjunct1 [OF total64_fold [OF 1 2 3, of a]]
  show ?thesis unfolding trialTotal64_def trialTotal_def p z .
qed

text \<open>The reducer on doubles, seen on mappings, and its distance from the exact one.\<close>

lemma step64_map:
  "map_of (if hasOwnProperty avg key
           then AList.map_entry key (\<lambda>a. to_double (a + to_double (v / N))) avg
           else AList.update key (to_double (v / N)) avg) = add_entry64 N (key, v) (map_of avg)"
  by (auto simp: hasOwnProperty_def add_entry64_def map_of_map_entry update_conv')

lemma reducer64_map:
  "map_of (amountsAvgReducer64 N avg a) = fold (add_entry64 N) a (map_of avg)"
proof (induction a arbitrary: avg)
  case Nil
  show ?case by (simp add: amountsAvgReducer64_def)
next
  case (Cons kv a)
  obtain key v where kv: "kv = (key, v)" by (cases kv)
  have "amountsAvgReducer64 N avg (kv # a) =
        amountsAvgReducer64 N
          (if hasOwnProperty avg key
           then AList.map_entry key (\<lambda>a. to_double (a + to_double (v / N))) avg
           else AList.update key (to_double (v / N)) avg) a"
    by (simp add: amountsAvgReducer64_def kv)
  then show ?case by (simp only: Cons.IH step64_map kv fold_simps comp_apply)
qed

lemma reducer64_distinct:
  "distinct (map fst avg) \<Longrightarrow> distinct (map fst (amountsAvgReducer64 N avg a))"
proof (induction a arbitrary: avg)
  case Nil
  then show ?case by (simp add: amountsAvgReducer64_def)
next
  case (Cons kv a)
  obtain key v where kv: "kv = (key, v)" by (cases kv)
  let ?avg = "if hasOwnProperty avg key
              then AList.map_entry key (\<lambda>a. to_double (a + to_double (v / N))) avg
              else AList.update key (to_double (v / N)) avg"
  have eq: "amountsAvgReducer64 N avg (kv # a) = amountsAvgReducer64 N ?avg a"
    by (simp add: amountsAvgReducer64_def kv)
  from Cons.prems have "distinct (map fst ?avg)"
    by (simp add: distinct_map_entry distinct_update)
  then show ?case unfolding eq by (rule Cons.IH)
qed

lemma average64_fold:
  "average64 N xs = fold (\<lambda>a avg. amountsAvgReducer64 N avg a) (present xs) []"
  by (simp add: average64_def array_reduce_present)

lemma collection64_map:
  "map_of (fold (\<lambda>a avg. amountsAvgReducer64 N avg a) xs avg) =
   fold (add_entry64 N) (concat xs) (map_of avg)"
  by (induction xs arbitrary: avg) (simp_all add: reducer64_map)

lemma collection64_distinct:
  "distinct (map fst avg) \<Longrightarrow>
   distinct (map fst (fold (\<lambda>a avg. amountsAvgReducer64 N avg a) xs avg))"
  by (induction xs arbitrary: avg) (simp_all add: reducer64_distinct)

lemma average64_map_of:
  "map_of (average64 N xs) = fold (add_entry64 N) (concat (present xs)) Map.empty"
  by (simp add: average64_fold collection64_map)

lemma average64_distinct: "distinct (map fst (average64 N xs))"
  by (simp add: average64_fold collection64_distinct)

lemma close_empty: "close c Map.empty Map.empty Map.empty"
  by (simp add: close_def)

lemma close_step:
  assumes cl: "close c mh m M" and c: "1 + unit_roundoff \<le> c" and N: "0 < N"
  shows "close ((1 + unit_roundoff) * c)
           (add_entry64 N (key, v) mh) (add_entry N (key, v) m) (add_entry N (key, \<bar>v\<bar>) M)"
proof -
  let ?u = unit_roundoff
  let ?c = "(1 + ?u) * c"
  from cl have d1: "dom mh = dom m" and d2: "dom M = dom m"
    and e: "\<And>k xh x a. mh k = Some xh \<Longrightarrow> m k = Some x \<Longrightarrow> M k = Some a \<Longrightarrow>
              \<bar>xh - x\<bar> \<le> (c - 1) * a \<and> \<bar>x\<bar> \<le> a"
    unfolding close_def by blast+
  have u: "0 < ?u" by (rule unit_roundoff_pos)
  from c u have cc: "c \<le> ?c" by (simp add: mult_le_cancel_right1)
  from c u cc have uc: "?u \<le> ?c - 1" by linarith
  have t: "\<bar>to_double (v / N) - v / N\<bar> \<le> ?u * \<bar>v / N\<bar>" by (rule to_double_err)
  from N have av: "\<bar>v\<bar> / N = \<bar>v / N\<bar>" by simp
  have "\<bar>xh - x\<bar> \<le> (?c - 1) * a \<and> \<bar>x\<bar> \<le> a"
    if h: "add_entry64 N (key, v) mh k = Some xh" "add_entry N (key, v) m k = Some x"
          "add_entry N (key, \<bar>v\<bar>) M k = Some a" for k xh x a
  proof (cases "k = key")
    case False
    with h have "mh k = Some xh" "m k = Some x" "M k = Some a"
      by (simp_all add: add_entry64_def add_entry_def)
    from e [OF this] have 1: "\<bar>xh - x\<bar> \<le> (c - 1) * a" and 2: "\<bar>x\<bar> \<le> a" by simp_all
    from 2 have "0 \<le> a" by linarith
    with cc have "(c - 1) * a \<le> (?c - 1) * a" by (intro mult_right_mono) simp_all
    with 1 2 show ?thesis by linarith
  next
    case True
    show ?thesis
    proof (cases "m key")
      case None
      with d1 d2 have "mh key = None" "M key = None" by (auto simp: domIff)
      with None h True have x: "xh = to_double (v / N)" "x = v / N" "a = \<bar>v / N\<bar>"
        by (simp_all add: add_entry64_def add_entry_def av)
      from uc have "?u * \<bar>v / N\<bar> \<le> (?c - 1) * \<bar>v / N\<bar>" by (intro mult_right_mono) simp_all
      with t show ?thesis unfolding x by simp
    next
      case (Some x0)
      with d1 d2 obtain xh0 a0 where o: "mh key = Some xh0" "M key = Some a0"
        by (metis domD domI)
      from e [OF o(1) Some o(2)] have 1: "\<bar>xh0 - x0\<bar> \<le> (c - 1) * a0" and 2: "\<bar>x0\<bar> \<le> a0"
        by simp_all
      from Some o h True
      have x: "xh = to_double (xh0 + to_double (v / N))" "x = x0 + v / N" "a = a0 + \<bar>v / N\<bar>"
        by (simp_all add: add_entry64_def add_entry_def av)
      from add_err [OF c 1 2 t] 2 show ?thesis unfolding x by linarith
    qed
  qed
  moreover have "dom (add_entry64 N (key, v) mh) = dom (add_entry N (key, v) m)"
    using d1 by (simp add: add_entry64_def add_entry_def)
  moreover have "dom (add_entry N (key, \<bar>v\<bar>) M) = dom (add_entry N (key, v) m)"
    using d2 by (simp add: add_entry_def)
  ultimately show ?thesis unfolding close_def by blast
qed

lemma close_fold:
  assumes "close c mh m M" and "1 + unit_roundoff \<le> c" and "0 < N"
  shows "close ((1 + unit_roundoff) ^ length l * c)
           (fold (add_entry64 N) l mh) (fold (add_entry N) l m)
           (fold (add_entry N) (abs_values l) M)"
  using assms
proof (induction l arbitrary: c mh m M)
  case Nil
  then show ?case by (simp add: abs_values_def)
next
  case (Cons kv l)
  obtain key v where kv: "kv = (key, v)" by (cases kv)
  from Cons.prems(2) unit_roundoff_pos have c': "1 + unit_roundoff \<le> (1 + unit_roundoff) * c"
    by (simp add: mult_le_cancel_left_pos)
  note IH = Cons.IH [OF close_step [OF Cons.prems, of key v] c' Cons.prems(3)]
  have p: "(1 + unit_roundoff) ^ length ((key, v) # l) * c =
           (1 + unit_roundoff) ^ length l * ((1 + unit_roundoff) * c)"
    by simp
  have a: "abs_values ((key, v) # l) = (key, \<bar>v\<bar>) # abs_values l"
    by (simp add: abs_values_def)
  show ?case unfolding kv p a fold_simps comp_apply by (rule IH)
qed

lemma sum_values_map_of:
  "distinct (map fst l) \<Longrightarrow> sum_values l = (\<Sum>k\<in>dom (map_of l). the (map_of l k))"
proof (induction l)
  case Nil
  show ?case by (simp add: sum_values_def)
next
  case (Cons kv l)
  obtain key v where kv: "kv = (key, v)" by (cases kv)
  from Cons.prems have d: "distinct (map fst l)" and n: "key \<notin> dom (map_of l)"
    by (simp_all add: kv dom_map_of_conv_image_fst)
  have f: "finite (dom (map_of l))" by (rule finite_dom_map_of)
  have "(\<Sum>k\<in>dom (map_of (kv # l)). the (map_of (kv # l) k)) =
        (\<Sum>k\<in>insert key (dom (map_of l)). the (map_of (kv # l) k))"
    by (simp add: kv)
  also have "\<dots> = v + (\<Sum>k\<in>dom (map_of l). the (map_of (kv # l) k))"
    using f n by (simp add: kv)
  also have "(\<Sum>k\<in>dom (map_of l). the (map_of (kv # l) k)) =
             (\<Sum>k\<in>dom (map_of l). the (map_of l k))"
    using n by (intro sum.cong) (auto simp: kv)
  finally show ?case using Cons.IH [OF d] by (simp add: sum_values_def kv)
qed

lemma close_sum:
  assumes cl: "close c (map_of lh) (map_of l) (map_of la)"
    and d: "distinct (map fst lh)" "distinct (map fst l)" "distinct (map fst la)"
  shows "\<bar>sum_values lh - sum_values l\<bar> \<le> (c - 1) * sum_values la"
proof -
  let ?D = "dom (map_of l)"
  from cl have d1: "dom (map_of lh) = ?D" and d2: "dom (map_of la) = ?D"
    and e: "\<And>k xh x a. map_of lh k = Some xh \<Longrightarrow> map_of l k = Some x \<Longrightarrow>
              map_of la k = Some a \<Longrightarrow> \<bar>xh - x\<bar> \<le> (c - 1) * a"
    unfolding close_def by blast+
  have k: "\<bar>the (map_of lh k) - the (map_of l k)\<bar> \<le> (c - 1) * the (map_of la k)"
    if "k \<in> ?D" for k
  proof -
    from that d1 d2 obtain xh x a
      where o: "map_of lh k = Some xh" "map_of l k = Some x" "map_of la k = Some a"
      by (metis domD)
    from e [OF o] show ?thesis by (simp add: o)
  qed
  have "\<bar>sum_values lh - sum_values l\<bar> =
        \<bar>\<Sum>k\<in>?D. (the (map_of lh k) - the (map_of l k))\<bar>"
    by (simp add: sum_values_map_of d d1 sum_subtractf)
  also have "\<dots> \<le> (\<Sum>k\<in>?D. \<bar>the (map_of lh k) - the (map_of l k)\<bar>)" by (rule sum_abs)
  also have "\<dots> \<le> (\<Sum>k\<in>?D. (c - 1) * the (map_of la k))" by (intro sum_mono k)
  also have "\<dots> = (c - 1) * sum_values la"
    by (simp add: sum_values_map_of d d2 sum_distrib_left)
  finally show ?thesis .
qed

lemma abs_values_concat: "abs_values (concat xs) = concat (map abs_values xs)"
  by (induction xs) (simp_all add: abs_values_def)

lemma average_sum_values:
  "sum_values (average N (map Some xs)) = (\<Sum>a\<leftarrow>xs. sum_values a) / N"
  by (simp add: sum_values_def average_fold present_map_Some collection_sum)

lemma average64_err:
  assumes N: "0 < N"
  shows "\<bar>sum_values (average64 N (map Some xs)) - sum_values (average N (map Some xs))\<bar>
         \<le> ((1 + unit_roundoff) ^ (length (concat xs) + 1) - 1) *
            ((\<Sum>a\<leftarrow>xs. sum_values (abs_values a)) / N)"
proof -
  have 1: "1 + unit_roundoff \<le> 1 + unit_roundoff" by simp
  have p: "(1 + unit_roundoff) ^ length (concat xs) * (1 + unit_roundoff) =
           (1 + unit_roundoff) ^ (length (concat xs) + 1)"
    by simp
  have "close ((1 + unit_roundoff) ^ (length (concat xs) + 1))
          (map_of (average64 N (map Some xs))) (map_of (average N (map Some xs)))
          (map_of (average N (map Some (map abs_values xs))))"
    using close_fold [OF close_empty 1 N, of "concat xs"]
    unfolding p average64_map_of average_map_of present_map_Some abs_values_concat .
  note s = close_sum [OF this average64_distinct average_distinct average_distinct]
  have r: "sum_values (average N (map Some (map abs_values xs))) =
           (\<Sum>a\<leftarrow>xs. sum_values (abs_values a)) / N"
    using average_sum_values [of N "map abs_values xs"] by (simp add: comp_def)
  from s show ?thesis unfolding r .
qed

text \<open>
  The two sides of the aggregation: at most 4000 rounded additions for the average, at most
  four for each total.
\<close>

lemma roundoff_power: "(1 + unit_roundoff) ^ n \<le> exp (real n * unit_roundoff)"
proof -
  have "0 \<le> 1 + unit_roundoff" using unit_roundoff_pos by simp
  moreover have "1 + unit_roundoff \<le> exp unit_roundoff" by (rule exp_ge_add_one_self)
  ultimately have "(1 + unit_roundoff) ^ n \<le> exp unit_roundoff ^ n" by (rule power_mono [rotated])
  then show ?thesis by (simp add: exp_of_nat_mult)
qed

lemma roundoff_budget:
  "(1 + unit_roundoff) ^ 4001 - 1 + ((1 + unit_roundoff) ^ 5 - 1) \<le> 1 / 10 ^ 12"
proof -
  have a: "exp (real 4001 * unit_roundoff) \<le>
           1 + real 4001 * unit_roundoff + (real 4001 * unit_roundoff)\<^sup>2"
    by (rule exp_bound) (simp_all add: unit_roundoff_def)
  have b: "exp (real 5 * unit_roundoff) \<le>
           1 + real 5 * unit_roundoff + (real 5 * unit_roundoff)\<^sup>2"
    by (rule exp_bound) (simp_all add: unit_roundoff_def)
  have c: "real 4001 * unit_roundoff + (real 4001 * unit_roundoff)\<^sup>2 +
           (real 5 * unit_roundoff + (real 5 * unit_roundoff)\<^sup>2) \<le> 1 / 10 ^ 12"
    by (simp add: unit_roundoff_def power2_eq_square)
  from roundoff_power [of 4001] roundoff_power [of 5] a b c show ?thesis by linarith
qed

lemma length_concat_le:
  "\<forall>a\<in>set xs. length a \<le> n \<Longrightarrow> length (concat xs) \<le> n * length xs"
  by (induction xs) auto

lemma totals64_err:
  assumes n: "\<forall>a\<in>set xs. length a \<le> n"
  shows "\<bar>sum_list (map trialTotal64 xs) - sum_list (map trialTotal xs)\<bar>
         \<le> ((1 + unit_roundoff) ^ (n + 1) - 1) *
            ((\<Sum>a\<leftarrow>xs. sum_values (abs_values a)) / 10 ^ 12)"
  using n
proof (induction xs)
  case Nil
  show ?case by simp
next
  case (Cons a xs)
  let ?u = unit_roundoff
  from Cons.prems have la: "length a \<le> n" and r: "\<forall>a\<in>set xs. length a \<le> n" by simp_all
  note IH = Cons.IH [OF r]
  have "(1 + ?u) ^ (length a + 1) \<le> (1 + ?u) ^ (n + 1)"
    using la unit_roundoff_pos by (intro power_increasing) simp_all
  moreover have "0 \<le> sum_values (abs_values a) / 10 ^ 12"
    using sum_abs_values_nonneg [of a] by simp
  ultimately have "((1 + ?u) ^ (length a + 1) - 1) * (sum_values (abs_values a) / 10 ^ 12)
        \<le> ((1 + ?u) ^ (n + 1) - 1) * (sum_values (abs_values a) / 10 ^ 12)"
    by (intro mult_right_mono) simp_all
  with trialTotal64_err [of a]
  have h: "\<bar>trialTotal64 a - trialTotal a\<bar>
        \<le> ((1 + ?u) ^ (n + 1) - 1) * (sum_values (abs_values a) / 10 ^ 12)"
    by linarith
  have s: "((1 + ?u) ^ (n + 1) - 1) * ((\<Sum>a\<leftarrow>a # xs. sum_values (abs_values a)) / 10 ^ 12) =
           ((1 + ?u) ^ (n + 1) - 1) * (sum_values (abs_values a) / 10 ^ 12) +
           ((1 + ?u) ^ (n + 1) - 1) * ((\<Sum>a\<leftarrow>xs. sum_values (abs_values a)) / 10 ^ 12)"
    by (simp add: add_divide_distrib distrib_left)
  have l: "sum_list (map trialTotal64 (a # xs)) - sum_list (map trialTotal (a # xs)) =
           (trialTotal64 a - trialTotal a) +
           (sum_list (map trialTotal64 xs) - sum_list (map trialTotal xs))"
    by simp
  from h IH show ?case unfolding s l by linarith
qed

lemma average_sum:
  "length xs = 1000 \<Longrightarrow>
   sum_values (average 1000 (map Some xs)) = mean (map trialTotal xs) * 10 ^ 12"
  using average_sum_values [of 1000 xs]
  by (simp add: mean_def sum_trialTotals sum_values_def)

lemma average64_sum:
  assumes len: "length xs = 1000" and keys: "\<forall>a\<in>set xs. length a \<le> 4"
  shows "\<bar>sum_values (average64 1000 (map Some xs)) - mean (map trialTotal64 xs) * 10 ^ 12\<bar>
         \<le> mean (map (\<lambda>a. sum_values (abs_values a)) xs) / 10 ^ 12"
proof -
  let ?u = unit_roundoff
  define S where "S = (\<Sum>a\<leftarrow>xs. sum_values (abs_values a))"
  define A64 where "A64 = sum_values (average64 1000 (map Some xs))"
  define A where "A = sum_values (average 1000 (map Some xs))"
  define T64 where "T64 = sum_list (map trialTotal64 xs)"
  define T where "T = sum_list (map trialTotal xs)"
  have S: "0 \<le> S" unfolding S_def
    by (induction xs) (simp_all add: sum_abs_values_nonneg)
  from length_concat_le [OF keys] len have "length (concat xs) + 1 \<le> 4001" by simp
  then have "(1 + ?u) ^ (length (concat xs) + 1) \<le> (1 + ?u) ^ 4001"
    using unit_roundoff_pos by (intro power_increasing) simp_all
  then have "((1 + ?u) ^ (length (concat xs) + 1) - 1) * (S / 1000)
          \<le> ((1 + ?u) ^ 4001 - 1) * (S / 1000)"
    using S by (intro mult_right_mono) simp_all
  with average64_err [of 1000 xs]
  have 1: "\<bar>A64 - A\<bar> \<le> ((1 + ?u) ^ 4001 - 1) * (S / 1000)"
    unfolding A64_def A_def S_def by simp
  from totals64_err [OF keys]
  have 2: "\<bar>T64 - T\<bar> \<le> ((1 + ?u) ^ 5 - 1) * (S / 10 ^ 12)"
    unfolding T64_def T_def S_def by simp
  have A: "A = T / 1000 * 10 ^ 12"
    unfolding A_def T_def using average_sum [OF len] by (simp add: mean_def len)
  have "T64 / 1000 * 10 ^ 12 - T / 1000 * 10 ^ 12 = (T64 - T) * 10 ^ 9"
    by (simp add: algebra_simps)
  then have "\<bar>T64 / 1000 * 10 ^ 12 - T / 1000 * 10 ^ 12\<bar> = \<bar>T64 - T\<bar> * 10 ^ 9"
    by (simp only: abs_mult) simp
  also from 2 have "\<dots> \<le> ((1 + ?u) ^ 5 - 1) * (S / 10 ^ 12) * 10 ^ 9"
    by (intro mult_right_mono) simp_all
  also have "\<dots> = ((1 + ?u) ^ 5 - 1) * (S / 1000)" by simp
  finally have 3: "\<bar>T64 / 1000 * 10 ^ 12 - A\<bar> \<le> ((1 + ?u) ^ 5 - 1) * (S / 1000)"
    unfolding A .
  from 1 3 have "\<bar>A64 - T64 / 1000 * 10 ^ 12\<bar>
        \<le> ((1 + ?u) ^ 4001 - 1) * (S / 1000) + ((1 + ?u) ^ 5 - 1) * (S / 1000)"
    by linarith
  also have "\<dots> = ((1 + ?u) ^ 4001 - 1 + ((1 + ?u) ^ 5 - 1)) * (S / 1000)"
    by (simp only: distrib_right)
  also have "\<dots> \<le> 1 / 10 ^ 12 * (S / 1000)"
    using S by (intro mult_right_mono roundoff_budget) simp
  finally show ?thesis
    unfolding A64_def T64_def S_def mean_def by (simp add: len)
qed

subsection \<open>Calls of run\<close>


section \<open>The claims\<close>

subsection \<open>The aggregator\<close>

text \<open>
  C1. For the Trial Collection that a run produces, from any reachable state of the globals
  and for each of the two models: the run leaves 1000 trials of four amounts each, their
  1000 totals and the Average Mapping of the trials, and the values of the Average Mapping
  sum to the arithmetic mean of the totals times \<open>10 ^ 12\<close>. Over exact arithmetic the two
  sides are equal. In double precision they need not be, and they agree within a
  tolerance: for every collection of 1000 trials of at most four amounts each, the amounts
  in the normal range, the sum of the values of the Average Mapping that the reducer
  computes in doubles and \<open>10 ^ 12\<close> times the mean of the totals that the run computes in
  doubles differ by at most \<open>10 ^ - 12\<close> times the mean over the trials of the sum of the
  absolute amounts. The sum and the mean of the claim are exact in both cases. The run
  returns on every fair tape.
\<close>

theorem run_average_sum:
  "reachable g \<Longrightarrow>
   (fair rnd \<longrightarrow> (\<exists>g' p'. run g rnd p = Some (g', p'))) \<and>
   (\<forall>g' p'. run g rnd p = Some (g', p') \<longrightarrow>
      (\<exists>bis bjs bi bj.
         length bis = 1000 \<and> length bjs = 1000 \<and>
         (\<forall>a\<in>set bis. length a = 4) \<and> (\<forall>a\<in>set bjs. length a = 4) \<and>
         biAmounts g' = map Some bis \<and> bjAmounts g' = map Some bjs \<and>
         biTotals g' = map Some (map trialTotal bis) \<and>
         bjTotals g' = map Some (map trialTotal bjs) \<and>
         biAmountsAvg g' = Some bi \<and> bjAmountsAvg g' = Some bj \<and>
         sum_values bi = mean (map trialTotal bis) * 10 ^ 12 \<and>
         sum_values bj = mean (map trialTotal bjs) * 10 ^ 12)) \<and>
   (\<forall>xs. length xs = 1000 \<and>
         (\<forall>a\<in>set xs. length a \<le> 4 \<and> (\<forall>(key, v)\<in>set a. in_range v)) \<longrightarrow>
      \<bar>sum_values (average64 1000 (map Some xs)) - mean (map trialTotal64 xs) * 10 ^ 12\<bar>
      \<le> mean (map (\<lambda>a. sum_values (abs_values a)) xs) / 10 ^ 12)"
proof (intro conjI allI impI)
  assume "fair rnd"
  then show "\<exists>g' p'. run g rnd p = Some (g', p')" by (rule run_fair)
next
  fix g' p'
  assume reach: "reachable g" and r: "run g rnd p = Some (g', p')"
  from run_effect [OF r reachable_fits [OF reach]] obtain bis bjs where
    e: "length bis = 1000" "length bjs = 1000"
     "biAmounts g' = map Some bis" "bjAmounts g' = map Some bjs"
     "biTotals g' = map Some (map trialTotal bis)"
     "bjTotals g' = map Some (map trialTotal bjs)"
     "biAmountsAvg g' = Some (average 1000 (map Some bis))"
     "bjAmountsAvg g' = Some (average 1000 (map Some bjs))"
    and k: "\<forall>a\<in>set bis. map fst a = biKeys" "\<forall>a\<in>set bjs. map fst a = bjKeys"
    by blast
  have "length a = 4" if "map fst a = biKeys" for a :: amounts
    using arg_cong [OF that, of length] by (simp add: biKeys_def)
  with k(1) have bi4: "\<forall>a\<in>set bis. length a = 4" by blast
  have "length a = 4" if "map fst a = bjKeys" for a :: amounts
    using arg_cong [OF that, of length] by (simp add: bjKeys_def)
  with k(2) have bj4: "\<forall>a\<in>set bjs. length a = 4" by blast
  note e(1,2) bi4 bj4 e(3-8) average_sum [OF e(1)] average_sum [OF e(2)]
  then show "\<exists>bis bjs bi bj.
         length bis = 1000 \<and> length bjs = 1000 \<and>
         (\<forall>a\<in>set bis. length a = 4) \<and> (\<forall>a\<in>set bjs. length a = 4) \<and>
         biAmounts g' = map Some bis \<and> bjAmounts g' = map Some bjs \<and>
         biTotals g' = map Some (map trialTotal bis) \<and>
         bjTotals g' = map Some (map trialTotal bjs) \<and>
         biAmountsAvg g' = Some bi \<and> bjAmountsAvg g' = Some bj \<and>
         sum_values bi = mean (map trialTotal bis) * 10 ^ 12 \<and>
         sum_values bj = mean (map trialTotal bjs) * 10 ^ 12"
    by (intro exI conjI)
next
  fix xs :: "amounts list"
  assume "length xs = 1000 \<and>
    (\<forall>a\<in>set xs. length a \<le> 4 \<and> (\<forall>(key, v)\<in>set a. in_range v))"
  then have "length xs = 1000" and "\<forall>a\<in>set xs. length a \<le> 4" by blast+
  then show "\<bar>sum_values (average64 1000 (map Some xs)) - mean (map trialTotal64 xs) * 10 ^ 12\<bar>
      \<le> mean (map (\<lambda>a. sum_values (abs_values a)) xs) / 10 ^ 12"
    by (rule average64_sum)
qed

theorem run_average_sum_witness:
  "(\<exists>g' p' bis bjs bi bj.
      run init_globals (tape []) 0 = Some (g', p') \<and>
      length bis = 1000 \<and> length bjs = 1000 \<and>
      (\<forall>a\<in>set bis. length a = 4) \<and> (\<forall>a\<in>set bjs. length a = 4) \<and>
      biAmounts g' = map Some bis \<and> bjAmounts g' = map Some bjs \<and>
      biTotals g' = map Some (map trialTotal bis) \<and>
      bjTotals g' = map Some (map trialTotal bjs) \<and>
      biAmountsAvg g' = Some bi \<and> bjAmountsAvg g' = Some bj \<and>
      sum_values bi = mean (map trialTotal bis) * 10 ^ 12 \<and>
      sum_values bj = mean (map trialTotal bjs) * 10 ^ 12) \<and>
   \<bar>sum_values (average64 1000 (map Some (replicate 1000 [(''directCosts'', 1645750000000)]))) -
    mean (map trialTotal64 (replicate 1000 [(''directCosts'', 1645750000000)])) * 10 ^ 12\<bar>
   \<le> mean (map (\<lambda>a. sum_values (abs_values a))
              (replicate 1000 [(''directCosts'', 1645750000000)])) / 10 ^ 12"
proof (rule conjI)
  note t = run_average_sum [OF reachable.initial, of "tape []" 0]
  from conjunct1 [OF t] fair_tape [of "[]"]
  have "\<exists>g' p'. run init_globals (tape []) 0 = Some (g', p')" by (rule mp)
  then obtain g' p' where r: "run init_globals (tape []) 0 = Some (g', p')" by (elim exE)
  from conjunct1 [OF conjunct2 [OF t], rule_format, OF r] obtain bis bjs bi bj where
    "length bis = 1000 \<and> length bjs = 1000 \<and>
      (\<forall>a\<in>set bis. length a = 4) \<and> (\<forall>a\<in>set bjs. length a = 4) \<and>
      biAmounts g' = map Some bis \<and> bjAmounts g' = map Some bjs \<and>
      biTotals g' = map Some (map trialTotal bis) \<and>
      bjTotals g' = map Some (map trialTotal bjs) \<and>
      biAmountsAvg g' = Some bi \<and> bjAmountsAvg g' = Some bj \<and>
      sum_values bi = mean (map trialTotal bis) * 10 ^ 12 \<and>
      sum_values bj = mean (map trialTotal bjs) * 10 ^ 12"
    by (elim exE)
  with r have "run init_globals (tape []) 0 = Some (g', p') \<and>
      length bis = 1000 \<and> length bjs = 1000 \<and>
      (\<forall>a\<in>set bis. length a = 4) \<and> (\<forall>a\<in>set bjs. length a = 4) \<and>
      biAmounts g' = map Some bis \<and> bjAmounts g' = map Some bjs \<and>
      biTotals g' = map Some (map trialTotal bis) \<and>
      bjTotals g' = map Some (map trialTotal bjs) \<and>
      biAmountsAvg g' = Some bi \<and> bjAmountsAvg g' = Some bj \<and>
      sum_values bi = mean (map trialTotal bis) * 10 ^ 12 \<and>
      sum_values bj = mean (map trialTotal bjs) * 10 ^ 12"
    by (rule conjI)
  then show "\<exists>g' p' bis bjs bi bj.
      run init_globals (tape []) 0 = Some (g', p') \<and>
      length bis = 1000 \<and> length bjs = 1000 \<and>
      (\<forall>a\<in>set bis. length a = 4) \<and> (\<forall>a\<in>set bjs. length a = 4) \<and>
      biAmounts g' = map Some bis \<and> bjAmounts g' = map Some bjs \<and>
      biTotals g' = map Some (map trialTotal bis) \<and>
      bjTotals g' = map Some (map trialTotal bjs) \<and>
      biAmountsAvg g' = Some bi \<and> bjAmountsAvg g' = Some bj \<and>
      sum_values bi = mean (map trialTotal bis) * 10 ^ 12 \<and>
      sum_values bj = mean (map trialTotal bjs) * 10 ^ 12"
    by (intro exI)
next
  let ?xs = "replicate 1000 [(''directCosts'', 1645750000000 :: real)]"
  have h: "length ?xs = 1000 \<and>
    (\<forall>a\<in>set ?xs. length a \<le> 4 \<and> (\<forall>(key, v)\<in>set a. in_range v))"
    by (simp add: in_range_def)
  from run_average_sum [OF reachable.initial, of "tape []" 0, THEN conjunct2, THEN conjunct2,
    rule_format, OF h]
  show "\<bar>sum_values (average64 1000 (map Some ?xs)) - mean (map trialTotal64 ?xs) * 10 ^ 12\<bar>
        \<le> mean (map (\<lambda>a. sum_values (abs_values a)) ?xs) / 10 ^ 12" .
qed

text \<open>
  C3, as amended. Averaging a Trial Collection and averaging a permutation of it give
  mappings with the same keys. In exact arithmetic they also have the same value at every
  key, so they are the same mapping (the order of the keys apart). In double precision
  the key sets are the same, and nothing is said of the values.
\<close>

theorem average_order_independent:
  "mset xs = mset ys \<Longrightarrow> N \<noteq> 0 \<Longrightarrow>
   map_of (average N xs) = map_of (average N ys) \<and>
   distinct (map fst (average N xs)) \<and> distinct (map fst (average N ys)) \<and>
   set (average N xs) = set (average N ys) \<and>
   fst ` set (average64 N xs) = fst ` set (average64 N ys)"
proof -
  assume eq: "mset xs = mset ys"
  then have m: "map_of (average N xs) = map_of (average N ys)" by (rule average_permuted)
  have d: "distinct (map fst (average N xs))" "distinct (map fst (average N ys))"
    by (rule average_distinct)+
  from m d have "set (average N xs) = set (average N ys)"
    by (simp add: map_of_inject_set)
  with m d average64_keys_permuted [OF eq] show ?thesis by simp
qed

theorem average_order_independent_witness:
  "mset [Some [(''directCosts'', 6 :: real), (''productivity'', - 2)],
         Some [(''productivity'', 4)]] =
   mset [Some [(''productivity'', 4)], Some [(''directCosts'', 6), (''productivity'', - 2)]] \<and>
   (2::real) \<noteq> 0 \<and>
   average 2 [Some [(''directCosts'', 6), (''productivity'', - 2)], Some [(''productivity'', 4)]] =
     [(''directCosts'', 3), (''productivity'', 1)] \<and>
   average 2 [Some [(''productivity'', 4)], Some [(''directCosts'', 6), (''productivity'', - 2)]] =
     [(''productivity'', 1), (''directCosts'', 3)] \<and>
   map_of (average 2
     [Some [(''directCosts'', 6), (''productivity'', - 2)], Some [(''productivity'', 4)]]) =
   map_of (average 2
     [Some [(''productivity'', 4)], Some [(''directCosts'', 6), (''productivity'', - 2)]])"
proof -
  let ?xs = "[Some [(''directCosts'', 6::real), (''productivity'', - 2)], Some [(''productivity'', 4)]]"
  let ?ys = "[Some [(''productivity'', 4::real)], Some [(''directCosts'', 6), (''productivity'', - 2)]]"
  have p: "mset ?xs = mset ?ys" by simp
  have n: "(2::real) \<noteq> 0" by simp
  have a: "average 2 ?xs = [(''directCosts'', 3), (''productivity'', 1)]"
    by (simp add: average_def array_reduce_def amountsAvgReducer_def hasOwnProperty_def)
  have b: "average 2 ?ys = [(''productivity'', 1), (''directCosts'', 3)]"
    by (simp add: average_def array_reduce_def amountsAvgReducer_def hasOwnProperty_def)
  from average_order_independent [OF p n] have "map_of (average 2 ?xs) = map_of (average 2 ?ys)"
    by (elim conjE)
  with p n a b show ?thesis by (intro conjI)
qed

text \<open>
  In double precision the values do depend on the order: with \<open>N = 1000\<close>, the three trials
  \<open>{k: 2 ^ 53 * 1000}\<close>, \<open>{k: 1000}\<close>, \<open>{k: 1000}\<close> average to \<open>2 ^ 53\<close> in this order (adding 1
  to \<open>2 ^ 53\<close> rounds back to \<open>2 ^ 53\<close>, twice) and to \<open>2 ^ 53 + 2\<close> with the large trial last.
\<close>

theorem average64_order_dependent:
  "mset [Some [(''k'', 9007199254740992000)], Some [(''k'', 1000)], Some [(''k'', 1000 :: real)]] =
   mset [Some [(''k'', 1000)], Some [(''k'', 1000)], Some [(''k'', 9007199254740992000)]] \<and>
   map_of (average64 1000
     [Some [(''k'', 9007199254740992000)], Some [(''k'', 1000)], Some [(''k'', 1000)]]) ''k'' =
     Some 9007199254740992 \<and>
   map_of (average64 1000
     [Some [(''k'', 1000)], Some [(''k'', 1000)], Some [(''k'', 9007199254740992000)]]) ''k'' =
     Some 9007199254740994"
  by (simp add: average64_big_first average64_big_last)

subsection \<open>The generators\<close>

text \<open>
  C4, as amended. For \<open>mn < mx\<close> and a draw \<open>u\<close> of the tape with \<open>0 \<le> u < 1\<close>, in exact
  arithmetic \<^verbatim>\<open>uniformRand(mn, mx)\<close> returns \<open>mn + u * (mx - mn)\<close>, consumes that one draw,
  and the result lies in the half-open interval from \<open>mn\<close> (included) to \<open>mx\<close> (excluded).
\<close>

theorem uniformRand_range:
  "mn < mx \<Longrightarrow> 0 \<le> rnd i \<Longrightarrow> rnd i < 1 \<Longrightarrow>
   uniformRand mn mx rnd i = (mn + rnd i * (mx - mn), Suc i) \<and>
   mn \<le> fst (uniformRand mn mx rnd i) \<and> fst (uniformRand mn mx rnd i) < mx"
proof -
  assume lt: "mn < mx" and u0: "0 \<le> rnd i" and u1: "rnd i < 1"
  have eq: "uniformRand mn mx rnd i = (mn + rnd i * (mx - mn), Suc i)"
    by (simp add: uniformRand_def Math_random_def add.commute)
  from lt have pos: "0 < mx - mn" by simp
  from u0 pos have lo: "0 \<le> rnd i * (mx - mn)" by simp
  from u1 pos have "rnd i * (mx - mn) < 1 * (mx - mn)"
    by (rule mult_strict_right_mono)
  then have hi: "mn + rnd i * (mx - mn) < mx" by simp
  from eq lo hi show ?thesis by simp
qed

theorem uniformRand_range_witness:
  "uniformRand (- 0.10) 0.15 (\<lambda>n. 0.4) 0 = (0, Suc 0) \<and>
   - 0.10 \<le> fst (uniformRand (- 0.10) 0.15 (\<lambda>n. 0.4) 0) \<and>
   fst (uniformRand (- 0.10) 0.15 (\<lambda>n. 0.4) 0) < 0.15"
  using uniformRand_range [of "- 0.10" "0.15" "\<lambda>n. 0.4" 0] by simp

text \<open>
  In double precision the result can be \<open>mx\<close> itself: for \<open>mn = 1\<close>, \<open>mx = 1 + 2 ^ -52\<close> (the
  next double) and the draw \<open>u = 1 - 2 ^ -53\<close> (the largest double below 1), the product
  \<open>u * (mx - mn)\<close> is \<open>2 ^ -52 - 2 ^ -105\<close>, and adding 1 rounds up to \<open>mx\<close>.
\<close>

theorem uniformRand64_reaches_max:
  "(1::real) < 4503599627370497 / 4503599627370496 \<and>
   (0::real) \<le> 9007199254740991 / 9007199254740992 \<and>
   (9007199254740991 / 9007199254740992 :: real) < 1 \<and>
   fst (uniformRand64 1 (4503599627370497 / 4503599627370496)
          (\<lambda>n. 9007199254740991 / 9007199254740992) 0) =
     4503599627370497 / 4503599627370496"
  by (simp add: uniformRand64_def Math_random_def to_double_eps to_double_below_eps
        to_double_below_next)

text \<open>
  C2. The rejection loop of \<^verbatim>\<open>gaussRand\<close> exits as soon as a pair of draws is accepted, and
  whenever it exits, the radius it exits with is \<open>z1 * z1 + z2 * z2\<close> for the last pair drawn
  and lies strictly between 0 and 1; \<^verbatim>\<open>gaussRand\<close> evaluates
  \<open>sqrt (- 2 * ln radius / radius)\<close> on that radius only, so it neither divides by zero nor
  takes the logarithm of zero.
\<close>

theorem gaussRand_radius:
  "(exits rnd i \<longrightarrow> (\<exists>z1 radius j. gaussLoop rnd i = Some (z1, radius, j))) \<and>
   (\<forall>z1 radius j. gaussLoop rnd i = Some (z1, radius, j) \<longrightarrow>
      0 < radius \<and> radius < 1 \<and>
      (\<exists>k. j = i + 2 * k + 2 \<and> z1 = 2 * rnd (i + 2 * k) - 1 \<and>
           radius = z1 * z1 + (2 * rnd (i + 2 * k + 1) - 1) * (2 * rnd (i + 2 * k + 1) - 1)) \<and>
      gaussRand (Some mu) (Some sigma) rnd i =
        Some ((z1 * sqrt (- 2 * ln radius / radius)) * sigma + mu, j))"
proof (intro conjI allI impI)
  assume "exits rnd i"
  then show "\<exists>z1 radius j. gaussLoop rnd i = Some (z1, radius, j)" by (rule gaussLoop_exits)
next
  fix z1 radius j
  assume l: "gaussLoop rnd i = Some (z1, radius, j)"
  from gaussLoop_radius [OF l] show "0 < radius" and "radius < 1" by simp_all
  from gaussLoop_result [OF l] obtain k where
    "(z1, radius, j) = (2 * rnd (i + 2 * k) - 1, radius_at rnd (i + 2 * k), Suc (Suc (i + 2 * k)))"
    by blast
  then have "j = i + 2 * k + 2 \<and> z1 = 2 * rnd (i + 2 * k) - 1 \<and>
           radius = z1 * z1 + (2 * rnd (i + 2 * k + 1) - 1) * (2 * rnd (i + 2 * k + 1) - 1)"
    by (simp add: radius_at_def)
  then show "\<exists>k. j = i + 2 * k + 2 \<and> z1 = 2 * rnd (i + 2 * k) - 1 \<and>
           radius = z1 * z1 + (2 * rnd (i + 2 * k + 1) - 1) * (2 * rnd (i + 2 * k + 1) - 1)"
    by blast
  from gaussRand_Some [OF l, of "Some mu" "Some sigma"]
  show "gaussRand (Some mu) (Some sigma) rnd i =
        Some ((z1 * sqrt (- 2 * ln radius / radius)) * sigma + mu, j)" by simp
qed

theorem gaussRand_radius_witness:
  "gaussLoop (tape [1 / 2]) 0 = Some (0, 1 / 4, 2) \<and> (0::real) < 1 / 4 \<and> (1 / 4 :: real) < 1 \<and>
   gaussRand (Some 250) (Some 75) (tape [1 / 2]) 0 = Some (250, 2)"
proof -
  have l: "gaussLoop (tape [1 / 2]) 0 = Some (0, 1 / 4, 2)" by (rule gaussLoop_tape_half)
  from gaussRand_radius [of "tape [1 / 2]" 0 250 75] l
  have "(0::real) < 1 / 4 \<and> (1 / 4 :: real) < 1 \<and>
    gaussRand (Some 250) (Some 75) (tape [1 / 2]) 0 =
      Some ((0 * sqrt (- 2 * ln (1 / 4) / (1 / 4))) * 75 + 250, 2)"
    by blast
  with l show ?thesis by simp
qed

text \<open>
  C5. For \<open>N \<ge> 0\<close> and \<open>0 \<le> p \<le> 1\<close>, \<^verbatim>\<open>binomRand(N, p)\<close> is
  \<open>round (gaussRand (N * p, sqrt (N * p * (1 - p))))\<close> with a negative rounded value replaced
  by 0; so it never returns a negative value, it returns 0 when \<open>N = 0\<close> or \<open>p = 0\<close> whatever
  the draws are, and it returns whenever the loop of \<^verbatim>\<open>gaussRand\<close> exits.
\<close>

theorem binomRand_clamped:
  "0 \<le> N \<Longrightarrow> 0 \<le> p \<Longrightarrow> p \<le> 1 \<Longrightarrow>
   binomRand N p rnd i =
     (case gaussRand (Some (N * p)) (Some (sqrt (N * p * (1 - p)))) rnd i of
        None \<Rightarrow> None
      | Some (g, j) \<Rightarrow> Some (if real_of_int (round g) < 0 then 0 else real_of_int (round g), j)) \<and>
   (\<forall>c j. binomRand N p rnd i = Some (c, j) \<longrightarrow> 0 \<le> c \<and> (N = 0 \<or> p = 0 \<longrightarrow> c = 0)) \<and>
   (exits rnd i \<longrightarrow> (\<exists>c j. binomRand N p rnd i = Some (c, j)))"
proof -
  assume N: "0 \<le> N" and p0: "0 \<le> p" and p1: "p \<le> 1"
  from N p0 p1 have v: "0 \<le> N * p * (1 - p)" by simp
  have eq: "binomRand N p rnd i =
     (case gaussRand (Some (N * p)) (Some (sqrt (N * p * (1 - p)))) rnd i of
        None \<Rightarrow> None
      | Some (g, j) \<Rightarrow> Some (if real_of_int (round g) < 0 then 0 else real_of_int (round g), j))"
    using binomRand_unfold [OF v, of rnd i] by (auto simp: max_def split: option.splits)
  have zero: "c = 0" if "N = 0 \<or> p = 0" and "binomRand N p rnd i = Some (c, j)" for c j
  proof -
    from that(1) have "N * p * (1 - p) = 0" by auto
    from binomRand_variance0 [OF this that(2)] that(1) show ?thesis by auto
  qed
  from eq zero binomRand_nonneg [of N p rnd i] binomRand_exits [of rnd i N p]
  show ?thesis by blast
qed

theorem binomRand_clamped_witness:
  "(0::real) \<le> 10 \<and> (0::real) \<le> 1 / 2 \<and> (1 / 2::real) \<le> 1 \<and>
   binomRand 10 (1 / 2) (tape [1 / 2]) 0 = Some (5, 2) \<and>
   binomRand 0 (1 / 2) (tape [1 / 2]) 0 = Some (0, 2)"
proof -
  have l: "gaussLoop (tape [1 / 2]) 0 = Some (0, 1 / 4, 2)" by (rule gaussLoop_tape_half)
  have g: "gaussRand (Some m) (Some s) (tape [1 / 2]) 0 = Some (m, 2)" for m s
    using gaussRand_Some [OF l, of "Some m" "Some s"] by simp
  from binomRand_clamped [of 10 "1 / 2" "tape [1 / 2]" 0]
  have a: "binomRand 10 (1 / 2) (tape [1 / 2]) 0 = Some (5, 2)"
    by (simp add: g)
  from binomRand_clamped [of 0 "1 / 2" "tape [1 / 2]" 0]
  have b: "binomRand 0 (1 / 2) (tape [1 / 2]) 0 = Some (0, 2)"
    by (simp add: g)
  from a b show ?thesis by simp
qed

text \<open>
  C10. With \<open>sigma = 0\<close>, \<^verbatim>\<open>gaussRand(mu, 0)\<close> returns exactly \<open>mu\<close> on every tape on which its
  loop exits; hence, when \<open>N * p * (1 - p) = 0\<close>, \<^verbatim>\<open>binomRand(N, p)\<close> returns
  \<open>max (round (N * p)) 0\<close> whatever the draws are.
\<close>

theorem gaussRand_zero_sigma:
  "(\<forall>g j. gaussRand (Some mu) (Some 0) rnd i = Some (g, j) \<longrightarrow> g = mu) \<and>
   (exits rnd i \<longrightarrow> (\<exists>j. gaussRand (Some mu) (Some 0) rnd i = Some (mu, j))) \<and>
   (N * p * (1 - p) = 0 \<longrightarrow>
      (\<forall>c j. binomRand N p rnd i = Some (c, j) \<longrightarrow> c = max (real_of_int (round (N * p))) 0) \<and>
      (exits rnd i \<longrightarrow>
         (\<exists>j. binomRand N p rnd i = Some (max (real_of_int (round (N * p))) 0, j))))"
proof (intro conjI allI impI)
  fix g j assume "gaussRand (Some mu) (Some 0) rnd i = Some (g, j)"
  then show "g = mu" by (rule gaussRand_sigma0)
next
  assume "exits rnd i"
  from gaussRand_exits [OF this, of "Some mu" "Some 0"] obtain g j where
    g: "gaussRand (Some mu) (Some 0) rnd i = Some (g, j)" by blast
  with gaussRand_sigma0 [OF g] show "\<exists>j. gaussRand (Some mu) (Some 0) rnd i = Some (mu, j)"
    by blast
next
  fix c j assume "N * p * (1 - p) = 0" and "binomRand N p rnd i = Some (c, j)"
  then show "c = max (real_of_int (round (N * p))) 0" by (rule binomRand_variance0)
next
  assume v: "N * p * (1 - p) = 0" and "exits rnd i"
  from binomRand_exits [OF this(2), of N p] obtain c j where
    c: "binomRand N p rnd i = Some (c, j)" by blast
  with binomRand_variance0 [OF v c]
  show "\<exists>j. binomRand N p rnd i = Some (max (real_of_int (round (N * p))) 0, j)" by blast
qed

theorem gaussRand_zero_sigma_witness:
  "exits (tape []) 0 \<and> gaussRand (Some 7) (Some 0) (tape []) 0 = Some (7, 2) \<and>
   (5::real) * 1 * (1 - 1) = 0 \<and> binomRand 5 1 (tape []) 0 = Some (5, 2)"
proof -
  have e: "exits (tape []) 0" by (rule exits_tape)
  have v: "(5::real) * 1 * (1 - 1) = 0" by simp
  note inst = gaussRand_zero_sigma [of 7 "tape []" 0 5 1]
  from inst e obtain j where g: "gaussRand (Some 7) (Some 0) (tape []) 0 = Some (7, j)"
    by blast
  from gaussRand_position [OF g] gaussLoop_tape_nil have j: "j = 2" by simp
  from inst e v obtain j' where
    b: "binomRand 5 1 (tape []) 0 = Some (max (real_of_int (round (5 * 1 :: real))) 0, j')"
    by blast
  from binomRand_position [OF b] gaussLoop_tape_nil have j': "j' = 2" by simp
  from e v g j b j' show ?thesis by simp
qed

subsection \<open>The basic income model\<close>

text \<open>
  C6. Whatever the draws are, every invocation of the basic income model that returns has
  \<open>directCosts = numAdults * basicIncome / 2\<close>, which is 1645750000000; and the model
  returns on every fair tape.
\<close>

theorem basicIncome_directCosts:
  "(fair rnd \<longrightarrow> (\<exists>a j. basicIncomeCostBenefit rnd i = Some (a, j))) \<and>
   (\<forall>a j. basicIncomeCostBenefit rnd i = Some (a, j) \<longrightarrow>
      map_of a ''directCosts'' = Some (numAdults * basicIncome / 2)) \<and>
   numAdults * basicIncome / 2 = 1645750000000"
proof (intro conjI allI impI)
  assume "fair rnd"
  then show "\<exists>a j. basicIncomeCostBenefit rnd i = Some (a, j)" by (rule basicIncome_fair)
next
  fix a j assume "basicIncomeCostBenefit rnd i = Some (a, j)"
  then show "map_of a ''directCosts'' = Some (numAdults * basicIncome / 2)"
    by (rule directCosts_fixed)
next
  show "numAdults * basicIncome / 2 = 1645750000000"
    by (simp add: numAdults_def basicIncome_def)
qed

theorem basicIncome_directCosts_witness:
  "basicIncomeCostBenefit sample 0 =
     Some ([(''directCosts'', 1645750000000), (''administrativeCosts'', 56750000000),
            (''productivity'', - 400400000000), (''jkRowling'', - 5000000000)], 6) \<and>
   map_of [(''directCosts'', 1645750000000), (''administrativeCosts'', 56750000000),
            (''productivity'', - 400400000000), (''jkRowling'', - 5000000000)] ''directCosts'' =
     Some (numAdults * basicIncome / 2) \<and>
   numAdults * basicIncome / 2 = 1645750000000"
proof -
  note t = basicIncome_directCosts [of sample 0]
  from t have c: "numAdults * basicIncome / 2 = 1645750000000" by (elim conjE)
  from t have "\<forall>a j. basicIncomeCostBenefit sample 0 = Some (a, j) \<longrightarrow>
      map_of a ''directCosts'' = Some (numAdults * basicIncome / 2)" by (elim conjE)
  from this [rule_format, OF basicIncome_sample] basicIncome_sample c show ?thesis
    by (intro conjI)
qed




subsection \<open>The runner\<close>

text \<open>
  C7. From any reachable state of the globals, a run that returns leaves exactly 1000
  entries, none of them a hole, in each of the four arrays of trials and totals, and the two
  Average Mappings have the key sets \<open>{directCosts, administrativeCosts, productivity,
  jkRowling}\<close> for basic income and \<open>{directCosts, disabled, administrativeCosts,
  productivity}\<close> for basic job. The run returns on every fair tape.
\<close>

theorem run_thousand_trials:
  "reachable g \<Longrightarrow>
   (fair rnd \<longrightarrow> (\<exists>g' p'. run g rnd p = Some (g', p'))) \<and>
   (\<forall>g' p'. run g rnd p = Some (g', p') \<longrightarrow>
      length (biAmounts g') = 1000 \<and> None \<notin> set (biAmounts g') \<and>
      length (biTotals g') = 1000 \<and> None \<notin> set (biTotals g') \<and>
      length (bjAmounts g') = 1000 \<and> None \<notin> set (bjAmounts g') \<and>
      length (bjTotals g') = 1000 \<and> None \<notin> set (bjTotals g') \<and>
      (\<exists>bi bj. biAmountsAvg g' = Some bi \<and> bjAmountsAvg g' = Some bj \<and>
         set (map fst bi) =
           {''directCosts'', ''administrativeCosts'', ''productivity'', ''jkRowling''} \<and>
         set (map fst bj) =
           {''directCosts'', ''disabled'', ''administrativeCosts'', ''productivity''}))"
proof (intro conjI allI impI)
  assume "fair rnd"
  then show "\<exists>g' p'. run g rnd p = Some (g', p')" by (rule run_fair)
next
  fix g' p'
  assume reach: "reachable g" and r: "run g rnd p = Some (g', p')"
  from run_effect [OF r reachable_fits [OF reach]] obtain bis bjs where
    e: "length bis = 1000" "length bjs = 1000"
     "\<forall>a\<in>set bis. map fst a = biKeys" "\<forall>a\<in>set bjs. map fst a = bjKeys"
     "biAmounts g' = map Some bis" "biTotals g' = map Some (map trialTotal bis)"
     "bjAmounts g' = map Some bjs" "bjTotals g' = map Some (map trialTotal bjs)"
     "biAmountsAvg g' = Some (average 1000 (map Some bis))"
     "bjAmountsAvg g' = Some (average 1000 (map Some bjs))"
    by blast
  from e(1,5) show "length (biAmounts g') = 1000" by simp
  from e(5) show "None \<notin> set (biAmounts g')" by auto
  from e(1,6) show "length (biTotals g') = 1000" by simp
  from e(6) show "None \<notin> set (biTotals g')" by auto
  from e(2,7) show "length (bjAmounts g') = 1000" by simp
  from e(7) show "None \<notin> set (bjAmounts g')" by auto
  from e(2,8) show "length (bjTotals g') = 1000" by simp
  from e(8) show "None \<notin> set (bjTotals g')" by auto
  from e(1,2) have ne: "bis \<noteq> []" "bjs \<noteq> []" by auto
  have "set (map fst (average 1000 (map Some bis))) = set biKeys"
    using ne(1) e(3) by (rule average_keys_fixed)
  moreover have "set (map fst (average 1000 (map Some bjs))) = set bjKeys"
    using ne(2) e(4) by (rule average_keys_fixed)
  ultimately show "\<exists>bi bj. biAmountsAvg g' = Some bi \<and> bjAmountsAvg g' = Some bj \<and>
         set (map fst bi) =
           {''directCosts'', ''administrativeCosts'', ''productivity'', ''jkRowling''} \<and>
         set (map fst bj) =
           {''directCosts'', ''disabled'', ''administrativeCosts'', ''productivity''}"
    using e(9,10) by (simp add: biKeys_def bjKeys_def)
qed

theorem run_thousand_trials_witness:
  "\<exists>g' p'. run init_globals (tape []) 0 = Some (g', p') \<and>
      length (biAmounts g') = 1000 \<and> None \<notin> set (biAmounts g') \<and>
      length (biTotals g') = 1000 \<and> None \<notin> set (biTotals g') \<and>
      length (bjAmounts g') = 1000 \<and> None \<notin> set (bjAmounts g') \<and>
      length (bjTotals g') = 1000 \<and> None \<notin> set (bjTotals g') \<and>
      (\<exists>bi bj. biAmountsAvg g' = Some bi \<and> bjAmountsAvg g' = Some bj \<and>
         set (map fst bi) =
           {''directCosts'', ''administrativeCosts'', ''productivity'', ''jkRowling''} \<and>
         set (map fst bj) =
           {''directCosts'', ''disabled'', ''administrativeCosts'', ''productivity''})"
proof -
  note t = run_thousand_trials [OF reachable.initial, of "tape []" 0]
  from conjunct1 [OF t] fair_tape [of "[]"]
  have "\<exists>g' p'. run init_globals (tape []) 0 = Some (g', p')" by (rule mp)
  then obtain g' p' where r: "run init_globals (tape []) 0 = Some (g', p')" by (elim exE)
  from conjunct2 [OF t, rule_format, OF r] have "run init_globals (tape []) 0 = Some (g', p') \<and>
      length (biAmounts g') = 1000 \<and> None \<notin> set (biAmounts g') \<and>
      length (biTotals g') = 1000 \<and> None \<notin> set (biTotals g') \<and>
      length (bjAmounts g') = 1000 \<and> None \<notin> set (bjAmounts g') \<and>
      length (bjTotals g') = 1000 \<and> None \<notin> set (bjTotals g') \<and>
      (\<exists>bi bj. biAmountsAvg g' = Some bi \<and> bjAmountsAvg g' = Some bj \<and>
         set (map fst bi) =
           {''directCosts'', ''administrativeCosts'', ''productivity'', ''jkRowling''} \<and>
         set (map fst bj) =
           {''directCosts'', ''disabled'', ''administrativeCosts'', ''productivity''})"
    using r by (rule conjI [rotated])
  then show ?thesis by (intro exI)
qed




end
